theory Spec2Isabelle
  imports Main "HOL-Library.Sublist"
begin

section \<open>common.h: the data shared by the generator and the supervisor\<close>

definition BUFFER_SIZE :: int where
  "BUFFER_SIZE = 20"

definition MAX_REMOVED_EDGES :: int where
  "MAX_REMOVED_EDGES = 8"

definition EXIT_SUCCESS :: int where
  "EXIT_SUCCESS = 0"

definition EXIT_FAILURE :: int where
  "EXIT_FAILURE = 1"

text \<open>\<^verbatim>\<open>typedef struct { int u; int v; } edge_t;\<close>\<close>

record edge_t =
  u :: int
  v :: int

text \<open>
  \<^verbatim>\<open>typedef struct { int edge_count; edge_t edges[MAX_REMOVED_EDGES]; } solution_t;\<close>
  The array is a list of eight entries, updated by index.
\<close>

record solution_t =
  edge_count :: int
  edges :: "edge_t list"

text \<open>
  \<^verbatim>\<open>typedef struct { volatile int terminate; int write_index; int read_index;
                   solution_t buffer[BUFFER_SIZE]; } shm_t;\<close>
\<close>

record shm_t =
  terminate :: int
  write_index :: int
  read_index :: int
  buffer :: "solution_t list"

text \<open>The three named semaphores \<^verbatim>\<open>SEM_FREE\<close>, \<^verbatim>\<open>SEM_USED\<close>, \<^verbatim>\<open>SEM_MUTEX\<close>.\<close>

datatype sem_id = SEM_FREE | SEM_USED | SEM_MUTEX

text \<open>
  C's \<^verbatim>\<open>%\<close> truncates towards zero; HOL's \<open>mod\<close> rounds towards minus infinity.
\<close>

definition c_rem :: "int \<Rightarrow> int \<Rightarrow> int" where
  "c_rem a b = sgn a * (\<bar>a\<bar> mod \<bar>b\<bar>)"

section \<open>Scanning decimal integers (what \<^verbatim>\<open>%d\<close> and \<^verbatim>\<open>strtol\<close> share)\<close>

definition isspace :: "char \<Rightarrow> bool" where
  "isspace c \<longleftrightarrow> c \<in> set [CHR '' '', CHR 0x09, CHR 0x0A, CHR 0x0B, CHR 0x0C, CHR 0x0D]"

definition isdigit :: "char \<Rightarrow> bool" where
  "isdigit c \<longleftrightarrow> 48 \<le> (of_char c :: nat) \<and> (of_char c :: nat) \<le> 57"

definition digit_val :: "char \<Rightarrow> int" where
  "digit_val c = int (of_char c) - 48"

fun scan_digits :: "int \<Rightarrow> string \<Rightarrow> int \<times> string" where
  "scan_digits acc [] = (acc, [])"
| "scan_digits acc (c # cs) =
     (if isdigit c then scan_digits (acc * 10 + digit_val c) cs else (acc, c # cs))"

text \<open>An optional sign: whether it is minus, and the rest of the input.\<close>

fun scan_sign :: "string \<Rightarrow> bool \<times> string" where
  "scan_sign [] = (False, [])"
| "scan_sign (c # cs) =
     (if c = CHR ''-'' then (True, cs)
      else if c = CHR ''+'' then (False, cs)
      else (False, c # cs))"

text \<open>
  The subject sequence of a decimal conversion: white space is skipped, then an optional
  sign, then at least one digit. The result is the mathematical value and the unread
  rest, or \<open>None\<close> when no digit stands there (no conversion).
\<close>

definition scan_int :: "string \<Rightarrow> (int \<times> string) option" where
  "scan_int s =
     (case scan_sign (dropWhile isspace s) of
        (neg, s2) \<Rightarrow>
          (case s2 of
             [] \<Rightarrow> None
           | c # cs \<Rightarrow>
               if isdigit c
               then (case scan_digits 0 s2 of (n, rest) \<Rightarrow> Some (if neg then - n else n, rest))
               else None))"

section \<open>generator.c\<close>

definition MAX_EDGES :: int where
  "MAX_EDGES = 200"

definition MAX_NODES :: int where
  "MAX_NODES = 100"

text \<open>
  The globals \<^verbatim>\<open>graph_edges\<close> (its filled prefix), \<^verbatim>\<open>num_edges\<close> and
  \<^verbatim>\<open>max_node_id\<close>.
\<close>

record graph =
  graph_edges :: "edge_t list"
  num_edges :: int
  max_node_id :: int

text \<open>
  \<^verbatim>\<open>sscanf(arg, "%d-%d", &e.u, &e.v) == 2\<close>: two conversions with a literal minus sign
  between them; whatever follows the second number is ignored. \<open>None\<close> is any other return
  value. The values are the mathematical ones (C leaves a number outside \<^verbatim>\<open>int\<close>
  undefined).
\<close>

definition sscanf_edge :: "string \<Rightarrow> edge_t option" where
  "sscanf_edge arg =
     (case scan_int arg of
        None \<Rightarrow> None
      | Some (a, rest) \<Rightarrow>
          (case rest of
             [] \<Rightarrow> None
           | c # cs \<Rightarrow>
               if c = CHR ''-''
               then (case scan_int cs of
                       None \<Rightarrow> None
                     | Some (b, _) \<Rightarrow> Some \<lparr>u = a, v = b\<rparr>)
               else None))"

text \<open>The \<^verbatim>\<open>for\<close> loop of \<^verbatim>\<open>parse_graph\<close> over \<^verbatim>\<open>argv[1..]\<close>; \<open>Inl\<close> is \<^verbatim>\<open>exit\<close>.\<close>

fun parse_edges :: "string list \<Rightarrow> graph \<Rightarrow> int + graph" where
  "parse_edges [] g = Inr g"
| "parse_edges (arg # args) g =
     (case sscanf_edge arg of
        None \<Rightarrow> Inl EXIT_FAILURE
      | Some e \<Rightarrow>
          (let m1 = (if u e > max_node_id g then u e else max_node_id g);
               m2 = (if v e > m1 then v e else m1)
           in parse_edges args (g\<lparr>graph_edges := graph_edges g @ [e], max_node_id := m2\<rparr>)))"

text \<open>\<^verbatim>\<open>parse_graph(argc, argv)\<close>, given \<^verbatim>\<open>argv[1..argc-1]\<close>.\<close>

definition parse_graph :: "string list \<Rightarrow> int + graph" where
  "parse_graph args =
     (if int (length args) > MAX_EDGES then Inl EXIT_FAILURE
      else parse_edges args \<lparr>graph_edges = [], num_edges = int (length args), max_node_id = 0\<rparr>)"

text \<open>
  An access to \<^verbatim>\<open>int colors[MAX_NODES]\<close> outside the array is undefined behaviour in C;
  the model stops there and reports the index.
\<close>

datatype fault = OutOfBounds int

definition in_colors :: "int \<Rightarrow> bool" where
  "in_colors i \<longleftrightarrow> 0 \<le> i \<and> i < MAX_NODES"

text \<open>
  \<^verbatim>\<open>for (int i = 0; i <= max_node_id; i++) colors[i] = rand() % 3;\<close>
  The loop counter runs through the given indices; \<open>rnd i\<close> is what \<^verbatim>\<open>rand()\<close> returns
  in round \<open>i\<close>.
\<close>

fun assign_colors :: "(nat \<Rightarrow> nat) \<Rightarrow> nat list \<Rightarrow> int list \<Rightarrow> fault + int list" where
  "assign_colors rnd [] colors = Inr colors"
| "assign_colors rnd (i # is) colors =
     (if in_colors (int i)
      then assign_colors rnd is (colors[i := int (rnd i mod 3)])
      else Inl (OutOfBounds (int i)))"

text \<open>
  The edge verification loop. The result is the record built so far and
  \<^verbatim>\<open>solution_valid\<close>.
\<close>

fun verify_edges :: "int list \<Rightarrow> edge_t list \<Rightarrow> solution_t \<Rightarrow> fault + (solution_t \<times> bool)" where
  "verify_edges colors [] sol = Inr (sol, True)"
| "verify_edges colors (e # es) sol =
     (if \<not> in_colors (u e) then Inl (OutOfBounds (u e))
      else if \<not> in_colors (v e) then Inl (OutOfBounds (v e))
      else if colors ! nat (u e) = colors ! nat (v e)
      then (if edge_count sol < MAX_REMOVED_EDGES
            then verify_edges colors es
                   (sol\<lparr>edges := (edges sol)[nat (edge_count sol) := e],
                        edge_count := edge_count sol + 1\<rparr>)
            else Inr (sol, False))
      else verify_edges colors es sol)"

text \<open>
  Lines 85 to 107: one candidate. \<open>colors\<close> is the array as the last round left it and
  \<open>stale k\<close> the indeterminate content of entry \<open>k\<close> of the fresh local
  \<^verbatim>\<open>sol.edges\<close>.
\<close>

definition candidate ::
  "graph \<Rightarrow> (nat \<Rightarrow> nat) \<Rightarrow> int list \<Rightarrow> (nat \<Rightarrow> edge_t) \<Rightarrow>
   fault + (int list \<times> solution_t \<times> bool)" where
  "candidate g rnd colors stale =
     (case assign_colors rnd [0 ..< nat (max_node_id g + 1)] colors of
        Inl f \<Rightarrow> Inl f
      | Inr colors' \<Rightarrow>
          (case verify_edges colors' (take (nat (num_edges g)) (graph_edges g))
                  \<lparr>edge_count = 0, edges = map stale [0 ..< nat MAX_REMOVED_EDGES]\<rparr> of
             Inl f \<Rightarrow> Inl f
           | Inr (sol, valid) \<Rightarrow> Inr (colors', sol, valid)))"


section \<open>The shared objects and the calls made on them\<close>

text \<open>The mapped region and the values of the three semaphores.\<close>

record world =
  shm :: shm_t
  sem :: "sem_id \<Rightarrow> nat"

text \<open>
  \<^verbatim>\<open>sem_post\<close> increments. \<^verbatim>\<open>sem_wait\<close> decrements a positive value; on a value of
  zero the caller stays blocked, which is \<open>None\<close>.
\<close>

definition sem_post :: "sem_id \<Rightarrow> world \<Rightarrow> world" where
  "sem_post x w = w\<lparr>sem := (sem w)(x := sem w x + 1)\<rparr>"

definition sem_wait :: "sem_id \<Rightarrow> world \<Rightarrow> world option" where
  "sem_wait x w = (if 0 < sem w x then Some (w\<lparr>sem := (sem w)(x := sem w x - 1)\<rparr>) else None)"

text \<open>The value of \<^verbatim>\<open>shm_ptr\<close> in the supervisor: \<^verbatim>\<open>NULL\<close>, \<^verbatim>\<open>MAP_FAILED\<close> or a mapping.\<close>

datatype shm_ptr_t = NULL | MAP_FAILED | Mapped

datatype message =
    Initialized
  | Sleeping int
  | NewBest int
  | ThreeColorable
  | Finished int

text \<open>
  What a process does to the shared objects and to its terminal, in the order it does it.
  \<open>SemWaitFailed x e\<close> is a \<^verbatim>\<open>sem_wait\<close> that returned -1 with \<^verbatim>\<open>errno\<close> \<open>e\<close>.
\<close>

datatype call =
    ShmOpen
  | Ftruncate
  | Mmap
  | SemOpen sem_id int
  | SemWait sem_id
  | SemWaitFailed sem_id int
  | SemPost sem_id
  | SemClose sem_id
  | SemUnlink sem_id
  | Munmap
  | Close
  | ShmUnlink
  | LoadTerminate int
  | StoreTerminate shm_ptr_t int
  | LoadWriteIndex int
  | StoreWriteIndex int
  | StoreBuffer int solution_t
  | LoadBuffer int solution_t
  | StoreReadIndex int
  | Printf message

section \<open>generator.c: the main loop\<close>

text \<open>
  The producer's place in \<^verbatim>\<open>main\<close>, by source line, with the locals that are live there:
  \<open>G82\<close> the loop head, \<open>G112\<close> to \<open>G126\<close> the statements of those lines (holding
  \<^verbatim>\<open>sol\<close> and \<^verbatim>\<open>idx\<close>), \<open>G130\<close> the detaching after the loop, \<open>G_exit\<close> the return.
  \<open>G_fault\<close> is undefined behaviour (an array index out of range).
\<close>

datatype gen_pc =
    G82
  | G112 solution_t
  | G113 solution_t
  | G116 solution_t
  | G118 solution_t
  | G119 solution_t int
  | G120 int
  | G122
  | G126
  | G130
  | G_exit int
  | G_fault fault

record gen =
  gpc :: gen_pc
  colors :: "int list"
  gr :: graph

text \<open>
  What the step cannot know by itself: the values of \<^verbatim>\<open>rand()\<close>, the stale content
  of the local \<^verbatim>\<open>sol.edges\<close>, and whether \<^verbatim>\<open>sem_wait(sem_free)\<close> fails (with which
  \<^verbatim>\<open>errno\<close>).
\<close>

record gen_env =
  rnd :: "nat \<Rightarrow> nat"
  stale :: "nat \<Rightarrow> edge_t"
  wait_errno :: "int option"

text \<open>
  One step of the producer on the shared objects: the calls it makes, the objects and the
  producer afterwards; \<open>None\<close> when it is blocked in \<^verbatim>\<open>sem_wait\<close> or has ended.
  The result of \<^verbatim>\<open>sem_wait(sem_mutex)\<close> is not looked at by the code, and the generator
  installs no signal handler that could interrupt it: it returns once it has decremented.
\<close>

definition gen_step :: "gen_env \<Rightarrow> world \<Rightarrow> gen \<Rightarrow> (call list \<times> world \<times> gen) option" where
  "gen_step env w p =
     (case gpc p of
        G82 \<Rightarrow>
          if terminate (shm w) \<noteq> 0
          then Some ([LoadTerminate (terminate (shm w))], w, p\<lparr>gpc := G130\<rparr>)
          else (case candidate (gr p) (rnd env) (colors p) (stale env) of
                  Inl f \<Rightarrow> Some ([LoadTerminate (terminate (shm w))], w, p\<lparr>gpc := G_fault f\<rparr>)
                | Inr (colors', sol, valid) \<Rightarrow>
                    Some ([LoadTerminate (terminate (shm w))], w,
                          p\<lparr>gpc := (if valid then G112 sol else G82), colors := colors'\<rparr>))
      | G112 sol \<Rightarrow>
          (case wait_errno env of
             Some e \<Rightarrow> Some ([SemWaitFailed SEM_FREE e], w, p\<lparr>gpc := G130\<rparr>)
           | None \<Rightarrow>
               (case sem_wait SEM_FREE w of
                  None \<Rightarrow> None
                | Some w' \<Rightarrow> Some ([SemWait SEM_FREE], w', p\<lparr>gpc := G113 sol\<rparr>)))
      | G113 sol \<Rightarrow>
          Some ([LoadTerminate (terminate (shm w))], w,
                p\<lparr>gpc := (if terminate (shm w) \<noteq> 0 then G130 else G116 sol)\<rparr>)
      | G116 sol \<Rightarrow>
          (case sem_wait SEM_MUTEX w of
             None \<Rightarrow> None
           | Some w' \<Rightarrow> Some ([SemWait SEM_MUTEX], w', p\<lparr>gpc := G118 sol\<rparr>))
      | G118 sol \<Rightarrow>
          Some ([LoadWriteIndex (write_index (shm w))], w, p\<lparr>gpc := G119 sol (write_index (shm w))\<rparr>)
      | G119 sol idx \<Rightarrow>
          if 0 \<le> idx \<and> idx < BUFFER_SIZE
          then Some ([StoreBuffer idx sol],
                     w\<lparr>shm := (shm w)\<lparr>buffer := (buffer (shm w))[nat idx := sol]\<rparr>\<rparr>,
                     p\<lparr>gpc := G120 idx\<rparr>)
          else Some ([], w, p\<lparr>gpc := G_fault (OutOfBounds idx)\<rparr>)
      | G120 idx \<Rightarrow>
          Some ([StoreWriteIndex (c_rem (idx + 1) BUFFER_SIZE)],
                w\<lparr>shm := (shm w)\<lparr>write_index := c_rem (idx + 1) BUFFER_SIZE\<rparr>\<rparr>,
                p\<lparr>gpc := G122\<rparr>)
      | G122 \<Rightarrow> Some ([SemPost SEM_MUTEX], sem_post SEM_MUTEX w, p\<lparr>gpc := G126\<rparr>)
      | G126 \<Rightarrow> Some ([SemPost SEM_USED], sem_post SEM_USED w, p\<lparr>gpc := G82\<rparr>)
      | G130 \<Rightarrow>
          Some ([Munmap, SemClose SEM_FREE, SemClose SEM_USED, SemClose SEM_MUTEX, Close], w,
                p\<lparr>gpc := G_exit EXIT_SUCCESS\<rparr>)
      | G_exit _ \<Rightarrow> None
      | G_fault _ \<Rightarrow> None)"

text \<open>
  A run of one producer. Before each of its steps the other processes do to the shared
  objects whatever the schedule says (the first component); a step that is blocked makes
  no call and is tried again at the next entry.
\<close>

fun gen_run :: "((world \<Rightarrow> world) \<times> gen_env) list \<Rightarrow> world \<Rightarrow> gen \<Rightarrow> call list \<times> world \<times> gen" where
  "gen_run [] w p = ([], w, p)"
| "gen_run ((others, env) # sched) w p =
     (case gen_step env (others w) p of
        None \<Rightarrow> gen_run sched (others w) p
      | Some (cs, w', p') \<Rightarrow>
          (case gen_run sched w' p' of (cs', w'', p'') \<Rightarrow> (cs @ cs', w'', p'')))"



section \<open>supervisor.c\<close>

text \<open>
  The globals of the supervisor. A semaphore pointer is \<^verbatim>\<open>NULL\<close> (\<open>False\<close>) or an open
  semaphore (\<open>True\<close>); \<^verbatim>\<open>shm_fd\<close> is -1 or a descriptor.
\<close>

record sup_globals =
  shm_ptr :: shm_ptr_t
  sem_free :: bool
  sem_used :: bool
  sem_mutex :: bool
  shm_fd :: int

text \<open>
  \<^verbatim>\<open>cleanup()\<close>: the calls it makes, in order. Each block is guarded by its pointer
  alone, and no pointer is assigned in the function.
\<close>

definition cleanup :: "sup_globals \<Rightarrow> call list" where
  "cleanup g =
     (if shm_ptr g \<noteq> NULL then [StoreTerminate (shm_ptr g) 1] else [])
     @ (if sem_free g
        then replicate (nat BUFFER_SIZE) (SemPost SEM_FREE) @ [SemClose SEM_FREE, SemUnlink SEM_FREE]
        else [])
     @ (if sem_used g then [SemClose SEM_USED, SemUnlink SEM_USED] else [])
     @ (if sem_mutex g then [SemClose SEM_MUTEX, SemUnlink SEM_MUTEX] else [])
     @ (if shm_ptr g \<noteq> NULL then [Munmap] else [])
     @ (if shm_fd g \<noteq> - 1 then [Close, ShmUnlink] else [])"

text \<open>
  What the process still holds of the objects it opened: its mapping of the segment
  and its handle of each semaphore. \<^verbatim>\<open>munmap\<close> and \<^verbatim>\<open>sem_close\<close> take them away; the
  pointers in the globals keep their values.
\<close>

record handles =
  mapped :: bool
  opened :: "sem_id \<Rightarrow> bool"

definition all_held :: handles where
  "all_held = \<lparr>mapped = True, opened = (\<lambda>x. True)\<rparr>"

text \<open>
  The effect of one call of \<^verbatim>\<open>cleanup()\<close> on what the process holds and on the shared
  objects. A store through \<^verbatim>\<open>MAP_FAILED\<close> or through the pointer into a region that was
  unmapped kills the process (\<open>None\<close>), and so does \<^verbatim>\<open>sem_post\<close> through the pointer to
  a semaphore that was closed. A second \<^verbatim>\<open>sem_close\<close>, \<^verbatim>\<open>munmap\<close>, \<^verbatim>\<open>close\<close> or unlink of
  the same object fails or does nothing, and \<^verbatim>\<open>cleanup()\<close> looks at no result. Closing,
  unmapping and unlinking leave the objects as they are for the other processes that
  hold them.
\<close>

fun exec_call :: "call \<Rightarrow> handles \<times> world \<Rightarrow> (handles \<times> world) option" where
  "exec_call (StoreTerminate p x) (h, w) =
     (if p = Mapped \<and> mapped h then Some (h, w\<lparr>shm := (shm w)\<lparr>terminate := x\<rparr>\<rparr>) else None)"
| "exec_call (SemPost x) (h, w) = (if opened h x then Some (h, sem_post x w) else None)"
| "exec_call (SemClose x) (h, w) = Some (h\<lparr>opened := (opened h)(x := False)\<rparr>, w)"
| "exec_call Munmap (h, w) = Some (h\<lparr>mapped := False\<rparr>, w)"
| "exec_call _ (h, w) = Some (h, w)"

fun exec_seq :: "call list \<Rightarrow> handles \<times> world \<Rightarrow> (handles \<times> world) option" where
  "exec_seq [] hw = Some hw"
| "exec_seq (c # cs) hw = (case exec_call c hw of None \<Rightarrow> None | Some hw' \<Rightarrow> exec_seq cs hw')"

text \<open>The calls made one after the other by a process that holds everything.\<close>

definition exec_calls :: "call list \<Rightarrow> world \<Rightarrow> world option" where
  "exec_calls cs w = map_option snd (exec_seq cs (all_held, w))"

subsection \<open>The command line\<close>

definition LONG_MAX :: int where
  "LONG_MAX = 2 ^ 63 - 1"

definition LONG_MIN :: int where
  "LONG_MIN = - (2 ^ 63)"

definition INT_MAX :: int where
  "INT_MAX = 2 ^ 31 - 1"

definition ERANGE :: int where
  "ERANGE = 34"

definition EINVAL :: int where
  "EINVAL = 22"

definition EINTR :: int where
  "EINTR = 4"

text \<open>
  \<^verbatim>\<open>strtol(s, &endptr, 10)\<close> after \<^verbatim>\<open>errno = 0\<close>: the value, the string at
  \<^verbatim>\<open>endptr\<close> and \<^verbatim>\<open>errno\<close>. Without a digit no conversion is made: the value is 0 and
  \<^verbatim>\<open>endptr\<close> is the whole input; whether \<^verbatim>\<open>errno\<close> becomes \<^verbatim>\<open>EINVAL\<close> then is the
  library's choice (\<open>einval\<close>; the GNU library leaves it alone). A value outside
  \<^verbatim>\<open>long\<close> is clamped with \<^verbatim>\<open>ERANGE\<close>.
\<close>

definition strtol :: "bool \<Rightarrow> string \<Rightarrow> int \<times> string \<times> int" where
  "strtol einval s =
     (case scan_int s of
        None \<Rightarrow> (0, s, if einval then EINVAL else 0)
      | Some (n, rest) \<Rightarrow>
          if n > LONG_MAX then (LONG_MAX, rest, ERANGE)
          else if n < LONG_MIN then (LONG_MIN, rest, ERANGE)
          else (n, rest, 0))"

text \<open>The conversion \<^verbatim>\<open>(int)\<close> of a \<^verbatim>\<open>long\<close>: the low 32 bits, signed.\<close>

definition int_of_long :: "int \<Rightarrow> int" where
  "int_of_long x = (x + 2 ^ 31) mod 2 ^ 32 - 2 ^ 31"

record settings =
  limit :: int
  delay :: int

text \<open>
  The \<^verbatim>\<open>getopt\<close> loop over what \<^verbatim>\<open>getopt(argc, argv, "n:w:")\<close> returns one after the
  other: the option character and \<^verbatim>\<open>optarg\<close>. \<open>Inl\<close> is the \<^verbatim>\<open>return\<close> from \<^verbatim>\<open>main\<close>.
\<close>

fun parse_opts :: "bool \<Rightarrow> (char \<times> string) list \<Rightarrow> settings \<Rightarrow> int + settings" where
  "parse_opts einval [] st = Inr st"
| "parse_opts einval ((opt, optarg) # rest) st =
     (if opt = CHR ''n''
      then (case strtol einval optarg of
              (val_n, endptr, errno) \<Rightarrow>
                if errno \<noteq> 0 \<or> endptr \<noteq> [] \<or> val_n \<le> 0 then Inl EXIT_FAILURE
                else parse_opts einval rest (st\<lparr>limit := int_of_long val_n\<rparr>))
      else if opt = CHR ''w''
      then (case strtol einval optarg of
              (val_w, endptr, errno) \<Rightarrow>
                if errno \<noteq> 0 \<or> endptr \<noteq> [] \<or> val_w < 0 then Inl EXIT_FAILURE
                else parse_opts einval rest (st\<lparr>delay := int_of_long val_w\<rparr>))
      else Inl EXIT_FAILURE)"

subsection \<open>\<^verbatim>\<open>main\<close>\<close>

text \<open>
  The supervisor's place in \<^verbatim>\<open>main\<close>, by source line: \<open>S167\<close> the loop condition,
  \<open>S170\<close> the wait, \<open>S176\<close> the read of lines 176 to 178, \<open>S181\<close> the post and the
  count of lines 181 and 182, \<open>S185\<close> the comparison of lines 185 to 193, \<open>S196\<close> the
  report after the loop, \<open>S32\<close> inside \<^verbatim>\<open>cleanup()\<close> with what the process still
  holds and the calls still to make. \<open>S_crash\<close> is the process killed: a store through
  \<^verbatim>\<open>MAP_FAILED\<close> or into the unmapped region, a post of a closed semaphore, or an
  index out of range.
\<close>

datatype sup_pc =
    S167
  | S170
  | S176
  | S181 solution_t
  | S185 solution_t
  | S196
  | S32 handles "call list"
  | S_exit int
  | S_crash

record supervisor =
  spc :: sup_pc
  conf :: settings
  solutions_read :: int
  best_edge_count :: int
  glob :: sup_globals

text \<open>
  What the step cannot know by itself: whether \<^verbatim>\<open>SIGINT\<close> or \<^verbatim>\<open>SIGTERM\<close> arrives now,
  and whether \<^verbatim>\<open>sem_wait(sem_used)\<close> fails (with which \<^verbatim>\<open>errno\<close>).
\<close>

record sup_env =
  signal :: bool
  used_errno :: "int option"

text \<open>Lines 185 to 193: the new best count, what is printed, and whether the loop is left.\<close>

definition check_better :: "int \<Rightarrow> solution_t \<Rightarrow> int \<times> message list \<times> bool" where
  "check_better best sol =
     (if edge_count sol < best
      then (if edge_count sol = 0
            then (edge_count sol, [NewBest (edge_count sol), ThreeColorable], True)
            else (edge_count sol, [NewBest (edge_count sol)], False))
      else (best, [], False))"

text \<open>Before \<^verbatim>\<open>cleanup()\<close> the process holds everything it opened.\<close>

fun still_held :: "sup_pc \<Rightarrow> handles" where
  "still_held (S32 h cs) = h"
| "still_held pc = all_held"

text \<open>
  One step of the supervisor. A signal runs \<^verbatim>\<open>handle_signal\<close>: \<^verbatim>\<open>cleanup()\<close> from its
  first line, then \<^verbatim>\<open>exit(EXIT_SUCCESS)\<close>, wherever \<^verbatim>\<open>main\<close> was, also inside
  \<^verbatim>\<open>cleanup()\<close>, with what an interrupted \<^verbatim>\<open>cleanup()\<close> had left of the handles.
\<close>

definition sup_step ::
  "sup_env \<Rightarrow> world \<Rightarrow> supervisor \<Rightarrow> (call list \<times> world \<times> supervisor) option" where
  "sup_step env w p =
     (case spc p of
        S_exit _ \<Rightarrow> None
      | S_crash \<Rightarrow> None
      | pc \<Rightarrow>
         if signal env then Some ([], w, p\<lparr>spc := S32 (still_held pc) (cleanup (glob p))\<rparr>)
         else
          (case pc of
             S167 \<Rightarrow>
               Some ([LoadTerminate (terminate (shm w))], w,
                     p\<lparr>spc := (if terminate (shm w) = 0 \<and> solutions_read p < limit (conf p)
                                then S170 else S196)\<rparr>)
           | S170 \<Rightarrow>
               (case used_errno env of
                  Some e \<Rightarrow>
                    Some ([SemWaitFailed SEM_USED e], w, p\<lparr>spc := (if e = EINTR then S196 else S167)\<rparr>)
                | None \<Rightarrow>
                    (case sem_wait SEM_USED w of
                       None \<Rightarrow> None
                     | Some w' \<Rightarrow> Some ([SemWait SEM_USED], w', p\<lparr>spc := S176\<rparr>)))
           | S176 \<Rightarrow>
               (let idx = read_index (shm w) in
                if 0 \<le> idx \<and> idx < BUFFER_SIZE
                then Some ([LoadBuffer idx (buffer (shm w) ! nat idx),
                            StoreReadIndex (c_rem (idx + 1) BUFFER_SIZE)],
                           w\<lparr>shm := (shm w)\<lparr>read_index := c_rem (idx + 1) BUFFER_SIZE\<rparr>\<rparr>,
                           p\<lparr>spc := S181 (buffer (shm w) ! nat idx)\<rparr>)
                else Some ([], w, p\<lparr>spc := S_crash\<rparr>))
           | S181 sol \<Rightarrow>
               Some ([SemPost SEM_FREE], sem_post SEM_FREE w,
                     p\<lparr>spc := S185 sol, solutions_read := solutions_read p + 1\<rparr>)
           | S185 sol \<Rightarrow>
               (case check_better (best_edge_count p) sol of
                  (best, msgs, leave) \<Rightarrow>
                    Some (map Printf msgs, w,
                          p\<lparr>spc := (if leave then S196 else S167), best_edge_count := best\<rparr>))
           | S196 \<Rightarrow>
               Some ((if 0 < best_edge_count p \<and> best_edge_count p \<le> MAX_REMOVED_EDGES
                      then [Printf (Finished (best_edge_count p))] else []), w,
                     p\<lparr>spc := S32 all_held (cleanup (glob p))\<rparr>)
           | S32 h [] \<Rightarrow> Some ([], w, p\<lparr>spc := S_exit EXIT_SUCCESS\<rparr>)
           | S32 h (c # cs) \<Rightarrow>
               (case exec_call c (h, w) of
                  None \<Rightarrow> Some ([c], w, p\<lparr>spc := S_crash\<rparr>)
                | Some (h', w') \<Rightarrow> Some ([c], w', p\<lparr>spc := S32 h' cs\<rparr>))
           | _ \<Rightarrow> None))"

text \<open>A run of the supervisor, the other processes acting before each of its steps.\<close>

fun sup_run ::
  "((world \<Rightarrow> world) \<times> sup_env) list \<Rightarrow> world \<Rightarrow> supervisor \<Rightarrow> call list \<times> world \<times> supervisor" where
  "sup_run [] w p = ([], w, p)"
| "sup_run ((others, env) # sched) w p =
     (case sup_step env (others w) p of
        None \<Rightarrow> sup_run sched (others w) p
      | Some (cs, w', p') \<Rightarrow>
          (case sup_run sched w' p' of (cs', w'', p'') \<Rightarrow> (cs @ cs', w'', p'')))"

text \<open>
  \<^verbatim>\<open>main\<close> up to the loop. The results of \<^verbatim>\<open>shm_open\<close>, \<^verbatim>\<open>ftruncate\<close>, \<^verbatim>\<open>mmap\<close>
  and of the three \<^verbatim>\<open>sem_open\<close> are the caller's.
\<close>

record os_results =
  shm_open_ok :: bool
  ftruncate_ok :: bool
  mmap_ok :: bool
  sem_free_ok :: bool
  sem_used_ok :: bool
  sem_mutex_ok :: bool

datatype startup = Exit int | Crash | Serving supervisor

text \<open>\<^verbatim>\<open>cleanup(); return EXIT_FAILURE;\<close> on the way out of a failed start.\<close>

definition cleanup_and_fail :: "sup_globals \<Rightarrow> call list \<times> startup" where
  "cleanup_and_fail g =
     (if shm_ptr g = MAP_FAILED then ([StoreTerminate MAP_FAILED 1], Crash)
      else (cleanup g, Exit EXIT_FAILURE))"

definition supervisor_startup ::
  "bool \<Rightarrow> (char \<times> string) list \<Rightarrow> os_results \<Rightarrow> call list \<times> startup" where
  "supervisor_startup einval opts os =
     (case parse_opts einval opts \<lparr>limit = INT_MAX, delay = 0\<rparr> of
        Inl code \<Rightarrow> ([], Exit code)
      | Inr st \<Rightarrow>
          if \<not> shm_open_ok os then ([ShmOpen], Exit EXIT_FAILURE)
          else if \<not> ftruncate_ok os
          then (case cleanup_and_fail
                       \<lparr>shm_ptr = NULL, sem_free = False, sem_used = False, sem_mutex = False,
                        shm_fd = 3\<rparr> of
                  (cs, r) \<Rightarrow> ([ShmOpen, Ftruncate] @ cs, r))
          else if \<not> mmap_ok os
          then (case cleanup_and_fail
                       \<lparr>shm_ptr = MAP_FAILED, sem_free = False, sem_used = False,
                        sem_mutex = False, shm_fd = 3\<rparr> of
                  (cs, r) \<Rightarrow> ([ShmOpen, Ftruncate, Mmap] @ cs, r))
          else
            (let created =
                   [ShmOpen, Ftruncate, Mmap, StoreTerminate Mapped 0, StoreWriteIndex 0,
                    StoreReadIndex 0, SemOpen SEM_FREE BUFFER_SIZE, SemOpen SEM_USED 0,
                    SemOpen SEM_MUTEX 1];
                 g = \<lparr>shm_ptr = Mapped, sem_free = sem_free_ok os, sem_used = sem_used_ok os,
                      sem_mutex = sem_mutex_ok os, shm_fd = 3\<rparr>
             in if \<not> sem_free_ok os \<or> \<not> sem_used_ok os \<or> \<not> sem_mutex_ok os
                then (case cleanup_and_fail g of (cs, r) \<Rightarrow> (created @ cs, r))
                else (created @ [Printf Initialized]
                        @ (if 0 < delay st then [Printf (Sleeping (delay st))] else []),
                      Serving \<lparr>spc = S167, conf = st, solutions_read = 0,
                               best_edge_count = MAX_REMOVED_EDGES + 1, glob = g\<rparr>)))"

text \<open>
  The shared objects as lines 139 to 146 leave newly created ones; the slots of the
  buffer hold whatever the segment held.
\<close>

definition init_world :: "solution_t list \<Rightarrow> world" where
  "init_world slots =
     \<lparr>shm = \<lparr>terminate = 0, write_index = 0, read_index = 0, buffer = slots\<rparr>,
      sem = (\<lambda>x. case x of SEM_FREE \<Rightarrow> nat BUFFER_SIZE | SEM_USED \<Rightarrow> 0 | SEM_MUTEX \<Rightarrow> 1)\<rparr>"

section \<open>The processes together\<close>

record sys =
  wld :: world
  gens :: "gen list"
  supv :: supervisor

text \<open>One step of the system is one step of one producer or of the supervisor.\<close>

inductive step :: "sys \<Rightarrow> sys \<Rightarrow> bool" where
  gen_steps:
    "i < length (gens s) \<Longrightarrow> gen_step env (wld s) (gens s ! i) = Some (cs, w', p') \<Longrightarrow>
     step s (s\<lparr>wld := w', gens := (gens s)[i := p']\<rparr>)"
| sup_steps:
    "sup_step env (wld s) (supv s) = Some (cs, w', p') \<Longrightarrow>
     step s (s\<lparr>wld := w', supv := p'\<rparr>)"

text \<open>
  The start: the supervisor has created everything and stands at its loop, and every
  producer that will ever attach stands at the head of its own.
\<close>

definition serving_start :: "supervisor \<Rightarrow> bool" where
  "serving_start p \<longleftrightarrow>
     spc p = S167 \<and> solutions_read p = 0 \<and> best_edge_count p = MAX_REMOVED_EDGES + 1 \<and>
     glob p = \<lparr>shm_ptr = Mapped, sem_free = True, sem_used = True, sem_mutex = True, shm_fd = 3\<rparr>"

definition initial :: "sys \<Rightarrow> bool" where
  "initial s \<longleftrightarrow>
     (\<exists>slots. length slots = nat BUFFER_SIZE \<and> wld s = init_world slots) \<and>
     list_all (\<lambda>p. gpc p = G82) (gens s) \<and>
     serving_start (supv s)"

inductive reach :: "sys \<Rightarrow> bool" where
  reach_initial: "initial s \<Longrightarrow> reach s"
| reach_step: "reach s \<Longrightarrow> step s s' \<Longrightarrow> reach s'"

section \<open>Notions used in the properties\<close>

text \<open>All four resources of the supervisor were acquired (the state in which it serves).\<close>

definition acquired :: "sup_globals \<Rightarrow> bool" where
  "acquired g \<longleftrightarrow> shm_ptr g = Mapped \<and> sem_free g \<and> sem_used g \<and> sem_mutex g \<and> shm_fd g \<noteq> - 1"

text \<open>The calls of lines 130 to 134 of the generator.\<close>

definition detach :: "call list" where
  "detach = [Munmap, SemClose SEM_FREE, SemClose SEM_USED, SemClose SEM_MUTEX, Close]"

text \<open>The calls that remove a name from the system.\<close>

fun is_unlink :: "call \<Rightarrow> bool" where
  "is_unlink (SemUnlink x) = True"
| "is_unlink ShmUnlink = True"
| "is_unlink c = False"

text \<open>The calls of lines 112 to 126 when a candidate is published through slot \<open>idx\<close>.\<close>

definition publish_calls :: "solution_t \<Rightarrow> int \<Rightarrow> call list" where
  "publish_calls sol idx =
     [SemWait SEM_FREE, LoadTerminate 0, SemWait SEM_MUTEX, LoadWriteIndex idx,
      StoreBuffer idx sol, StoreWriteIndex (c_rem (idx + 1) BUFFER_SIZE),
      SemPost SEM_MUTEX, SemPost SEM_USED]"

text \<open>
  The records the supervisor read from the buffer in a sequence of calls, the record it
  holds at a place of \<^verbatim>\<open>main\<close> before the comparison of line 185, and the least
  \<^verbatim>\<open>edge_count\<close> among a start value and some records.
\<close>

fun loaded :: "call list \<Rightarrow> solution_t list" where
  "loaded [] = []"
| "loaded (LoadBuffer idx sol # cs) = sol # loaded cs"
| "loaded (c # cs) = loaded cs"

fun held :: "sup_pc \<Rightarrow> solution_t list" where
  "held (S181 sol) = [sol]"
| "held (S185 sol) = [sol]"
| "held pc = []"

definition least :: "int \<Rightarrow> solution_t list \<Rightarrow> int" where
  "least b sols = foldl (\<lambda>m sol. min m (edge_count sol)) b sols"

text \<open>
  The text of an edge as the README describes it: \<^verbatim>\<open>u-v\<close>, each number in decimal, a
  negative one with its sign.
\<close>

fun show_nat :: "nat \<Rightarrow> string" where
  "show_nat n =
     (if n < 10 then [char_of (48 + n)] else show_nat (n div 10) @ [char_of (48 + n mod 10)])"

definition show_int :: "int \<Rightarrow> string" where
  "show_int i = (if i < 0 then CHR ''-'' # show_nat (nat (- i)) else show_nat (nat i))"

definition show_edge :: "edge_t \<Rightarrow> string" where
  "show_edge e = show_int (u e) @ CHR ''-'' # show_int (v e)"

text \<open>The whole of \<open>s\<close> is the decimal text of the integer \<open>n\<close>, nothing following it.\<close>

definition integer_text :: "string \<Rightarrow> int \<Rightarrow> bool" where
  "integer_text s n \<longleftrightarrow> scan_int s = Some (n, [])"

text \<open>The edges whose two ends have the same colour.\<close>

definition conflicts :: "int list \<Rightarrow> edge_t list \<Rightarrow> edge_t list" where
  "conflicts cols es = filter (\<lambda>e. cols ! nat (u e) = cols ! nat (v e)) es"

subsection \<open>Counting the processes in flight\<close>

text \<open>
  A producer holds a slot from its wait on \<^verbatim>\<open>sem_free\<close> to its post of \<^verbatim>\<open>sem_used\<close>;
  it is in the critical section from its wait on \<^verbatim>\<open>sem_mutex\<close> to its post of it; its
  record is written and counted in \<^verbatim>\<open>write_index\<close> but not yet posted on the last two
  lines.
\<close>

fun holds_slot :: "gen_pc \<Rightarrow> nat" where
  "holds_slot (G113 sol) = 1"
| "holds_slot (G116 sol) = 1"
| "holds_slot (G118 sol) = 1"
| "holds_slot (G119 sol idx) = 1"
| "holds_slot (G120 idx) = 1"
| "holds_slot G122 = 1"
| "holds_slot G126 = 1"
| "holds_slot pc = 0"

fun in_critical :: "gen_pc \<Rightarrow> nat" where
  "in_critical (G118 sol) = 1"
| "in_critical (G119 sol idx) = 1"
| "in_critical (G120 idx) = 1"
| "in_critical G122 = 1"
| "in_critical pc = 0"

fun unposted :: "gen_pc \<Rightarrow> nat" where
  "unposted G122 = 1"
| "unposted G126 = 1"
| "unposted pc = 0"

definition tally :: "(gen_pc \<Rightarrow> nat) \<Rightarrow> gen list \<Rightarrow> nat" where
  "tally f ps = sum_list (map (\<lambda>p. f (gpc p)) ps)"

text \<open>
  The supervisor holds a slot from its wait on \<^verbatim>\<open>sem_used\<close> to its post of
  \<^verbatim>\<open>sem_free\<close>, and has a record to read between the wait and the read.
\<close>

fun sup_holds :: "sup_pc \<Rightarrow> nat" where
  "sup_holds S176 = 1"
| "sup_holds (S181 sol) = 1"
| "sup_holds pc = 0"

fun sup_unread :: "sup_pc \<Rightarrow> nat" where
  "sup_unread S176 = 1"
| "sup_unread pc = 0"

text \<open>The supervisor has not entered \<^verbatim>\<open>cleanup()\<close>.\<close>

fun serving :: "sup_pc \<Rightarrow> bool" where
  "serving (S32 h cs) = False"
| "serving (S_exit code) = False"
| "serving S_crash = False"
| "serving pc = True"

text \<open>The supervisor is inside its read loop.\<close>

fun in_loop :: "sup_pc \<Rightarrow> bool" where
  "in_loop S167 = True"
| "in_loop S170 = True"
| "in_loop S176 = True"
| "in_loop (S181 sol) = True"
| "in_loop (S185 sol) = True"
| "in_loop pc = False"

text \<open>
  A quiescent point: no producer and not the supervisor is between a semaphore wait and
  its matching post (so none is in the critical section).
\<close>

definition quiescent :: "sys \<Rightarrow> bool" where
  "quiescent s \<longleftrightarrow>
     tally holds_slot (gens s) = 0 \<and> tally in_critical (gens s) = 0 \<and>
     sup_holds (spc (supv s)) = 0"

definition valid_solution :: "solution_t \<Rightarrow> bool" where
  "valid_solution sol \<longleftrightarrow> 0 \<le> edge_count sol \<and> edge_count sol \<le> MAX_REMOVED_EDGES"

text \<open>The records written and counted in \<^verbatim>\<open>write_index\<close> that the supervisor has not read.\<close>

definition pending :: "sys \<Rightarrow> nat" where
  "pending s =
     sem (wld s) SEM_USED + tally unposted (gens s) + sup_unread (spc (supv s))"

text \<open>What a producer's locals satisfy at each place.\<close>

fun gen_ok :: "world \<Rightarrow> gen_pc \<Rightarrow> bool" where
  "gen_ok w (G112 sol) = valid_solution sol"
| "gen_ok w (G113 sol) = valid_solution sol"
| "gen_ok w (G116 sol) = valid_solution sol"
| "gen_ok w (G118 sol) = valid_solution sol"
| "gen_ok w (G119 sol idx) = (valid_solution sol \<and> idx = write_index (shm w))"
| "gen_ok w (G120 idx) =
     (idx = write_index (shm w) \<and> valid_solution (buffer (shm w) ! nat idx))"
| "gen_ok w pc = True"

text \<open>
  The calls \<^verbatim>\<open>cleanup()\<close> can make when the region is mapped: the store to
  \<^verbatim>\<open>terminate\<close>, posts of \<^verbatim>\<open>sem_free\<close>, closes, unlinks and the unmap.
\<close>

fun cleanup_call :: "call \<Rightarrow> bool" where
  "cleanup_call (SemPost x) = (x = SEM_FREE)"
| "cleanup_call (StoreTerminate p x) = (p = Mapped)"
| "cleanup_call (SemClose x) = True"
| "cleanup_call (SemUnlink x) = True"
| "cleanup_call Munmap = True"
| "cleanup_call Close = True"
| "cleanup_call ShmUnlink = True"
| "cleanup_call c = False"

text \<open>What the supervisor's locals satisfy at each place.\<close>

fun sup_ok :: "sup_pc \<Rightarrow> bool" where
  "sup_ok (S181 sol) = valid_solution sol"
| "sup_ok (S185 sol) = valid_solution sol"
| "sup_ok (S32 h cs) = list_all cleanup_call cs"
| "sup_ok pc = True"

text \<open>
  The invariant of the system: the cursors stay inside the buffer; one unit is in
  \<^verbatim>\<open>sem_mutex\<close> or one producer in the critical section; the locals are as above;
  while the supervisor serves, \<^verbatim>\<open>terminate\<close> is 0 and the slots are all accounted for;
  while it is in its loop, the best count is positive and the records from
  \<^verbatim>\<open>read_index\<close> up to \<^verbatim>\<open>write_index\<close> are the pending ones, all valid.
\<close>

definition inv :: "sys \<Rightarrow> bool" where
  "inv s \<longleftrightarrow>
     0 \<le> read_index (shm (wld s)) \<and> read_index (shm (wld s)) < BUFFER_SIZE \<and>
     0 \<le> write_index (shm (wld s)) \<and> write_index (shm (wld s)) < BUFFER_SIZE \<and>
     length (buffer (shm (wld s))) = nat BUFFER_SIZE \<and>
     sem (wld s) SEM_MUTEX + tally in_critical (gens s) = 1 \<and>
     (\<forall>i < length (gens s). gen_ok (wld s) (gpc (gens s ! i))) \<and>
     sup_ok (spc (supv s)) \<and>
     shm_ptr (glob (supv s)) = Mapped \<and>
     (serving (spc (supv s)) \<longrightarrow>
        terminate (shm (wld s)) = 0 \<and>
        sem (wld s) SEM_FREE + sem (wld s) SEM_USED + tally holds_slot (gens s) +
          sup_holds (spc (supv s)) = nat BUFFER_SIZE) \<and>
     (in_loop (spc (supv s)) \<longrightarrow>
        0 < best_edge_count (supv s) \<and>
        write_index (shm (wld s)) =
          (read_index (shm (wld s)) + int (pending s)) mod BUFFER_SIZE \<and>
        (\<forall>k < pending s.
           valid_solution
             (buffer (shm (wld s)) !
                nat ((read_index (shm (wld s)) + int k) mod BUFFER_SIZE))))"

subsection \<open>Concrete objects for the examples\<close>

definition ex_globals :: sup_globals where
  "ex_globals = \<lparr>shm_ptr = Mapped, sem_free = True, sem_used = True, sem_mutex = True, shm_fd = 3\<rparr>"

definition ex_sol :: "int \<Rightarrow> solution_t" where
  "ex_sol n = \<lparr>edge_count = n, edges = replicate 8 \<lparr>u = 0, v = 0\<rparr>\<rparr>"

definition ex_world :: world where
  "ex_world = init_world (replicate 20 (ex_sol 0))"

definition ex_os :: os_results where
  "ex_os = \<lparr>shm_open_ok = True, ftruncate_ok = True, mmap_ok = True, sem_free_ok = True,
            sem_used_ok = True, sem_mutex_ok = True\<rparr>"

text \<open>Three records wait in the buffer, with 3, 3 and 1 removed edges.\<close>

definition ex_filled :: world where
  "ex_filled =
     \<lparr>shm = \<lparr>terminate = 0, write_index = 3, read_index = 0,
             buffer = [ex_sol 3, ex_sol 3, ex_sol 1] @ replicate 17 (ex_sol 0)\<rparr>,
      sem = (\<lambda>x. case x of SEM_FREE \<Rightarrow> 17 | SEM_USED \<Rightarrow> 3 | SEM_MUTEX \<Rightarrow> 1)\<rparr>"

definition ex_graph :: graph where
  "ex_graph = \<lparr>graph_edges = [\<lparr>u = 0, v = 1\<rparr>, \<lparr>u = 1, v = 2\<rparr>, \<lparr>u = 2, v = 0\<rparr>],
                num_edges = 3, max_node_id = 2\<rparr>"

text \<open>Nine loops at node 0: every colouring has nine conflicts.\<close>

definition ex_loops :: graph where
  "ex_loops = \<lparr>graph_edges = replicate 9 \<lparr>u = 0, v = 0\<rparr>, num_edges = 9, max_node_id = 0\<rparr>"

definition ex_gen :: gen where
  "ex_gen = \<lparr>gpc = G82, colors = replicate 100 0, gr = ex_graph\<rparr>"

text \<open>A \<^verbatim>\<open>rand()\<close> that always returns 0: every node gets colour 0.\<close>

definition ex_env0 :: gen_env where
  "ex_env0 = \<lparr>rnd = (\<lambda>i. 0), stale = (\<lambda>k. \<lparr>u = 0, v = 0\<rparr>), wait_errno = None\<rparr>"

text \<open>The candidate of the triangle under that colouring: all three edges conflict.\<close>

definition ex_sol3 :: solution_t where
  "ex_sol3 =
     \<lparr>edge_count = 3,
      edges = [\<lparr>u = 0, v = 1\<rparr>, \<lparr>u = 1, v = 2\<rparr>, \<lparr>u = 2, v = 0\<rparr>] @ replicate 5 \<lparr>u = 0, v = 0\<rparr>\<rparr>"

definition ex_env :: gen_env where
  "ex_env = \<lparr>rnd = (\<lambda>i. i), stale = (\<lambda>k. \<lparr>u = 0, v = 0\<rparr>), wait_errno = None\<rparr>"

definition ex_supervisor :: supervisor where
  "ex_supervisor =
     \<lparr>spc = S167, conf = \<lparr>limit = 5, delay = 0\<rparr>, solutions_read = 0,
      best_edge_count = MAX_REMOVED_EDGES + 1, glob = ex_globals\<rparr>"

definition no_signal :: sup_env where
  "no_signal = \<lparr>signal = False, used_errno = None\<rparr>"

definition a_signal :: sup_env where
  "a_signal = \<lparr>signal = True, used_errno = None\<rparr>"

definition ex_sys :: sys where
  "ex_sys = \<lparr>wld = ex_world, gens = [ex_gen, ex_gen], supv = ex_supervisor\<rparr>"

section \<open>Properties\<close>

subsection \<open>Semaphores and the calls of \<^verbatim>\<open>cleanup()\<close>\<close>

lemma sem_post_apply [simp]:
  "sem (sem_post x w) y = (if y = x then sem w x + 1 else sem w y)"
  "shm (sem_post x w) = shm w"
  by (simp_all add: sem_post_def)

lemma exec_seq_append:
  "exec_seq (cs @ ds) hw = (case exec_seq cs hw of None \<Rightarrow> None | Some hw' \<Rightarrow> exec_seq ds hw')"
  by (induction cs arbitrary: hw) (auto split: option.splits)

lemma exec_seq_posts:
  "opened h x \<Longrightarrow>
   \<exists>w'. exec_seq (replicate n (SemPost x)) (h, w) = Some (h, w') \<and> shm w' = shm w \<and>
        (\<forall>y. sem w' y = (if y = x then sem w x + n else sem w y))"
proof (induction n arbitrary: w)
  case 0
  show ?case by auto
next
  case (Suc n)
  from Suc.IH [OF Suc.prems, of "sem_post x w"] Suc.prems show ?case by auto
qed

lemma cleanup_acquired:
  "acquired g \<Longrightarrow>
   cleanup g =
     StoreTerminate Mapped 1 # replicate 20 (SemPost SEM_FREE) @
     [SemClose SEM_FREE, SemUnlink SEM_FREE, SemClose SEM_USED, SemUnlink SEM_USED,
      SemClose SEM_MUTEX, SemUnlink SEM_MUTEX, Munmap, Close, ShmUnlink]"
  by (simp add: cleanup_def BUFFER_SIZE_def acquired_def)

text \<open>The store and the posts of a process that holds the mapping and \<^verbatim>\<open>sem_free\<close>.\<close>

lemma exec_seq_wake:
  assumes "mapped h" and "opened h SEM_FREE"
  shows "\<exists>w'. exec_seq (StoreTerminate Mapped 1 # replicate n (SemPost SEM_FREE)) (h, w) =
             Some (h, w') \<and>
           shm w' = (shm w)\<lparr>terminate := 1\<rparr> \<and>
           (\<forall>y. sem w' y = (if y = SEM_FREE then sem w SEM_FREE + n else sem w y))"
  using exec_seq_posts [OF assms(2), of n "w\<lparr>shm := (shm w)\<lparr>terminate := 1\<rparr>\<rparr>"] assms(1)
  by auto

lemma exec_seq_cleanup_acquired:
  assumes "acquired g" and "mapped h" and "opened h SEM_FREE"
  shows "\<exists>h' w'. exec_seq (cleanup g) (h, w) = Some (h', w') \<and>
           shm w' = (shm w)\<lparr>terminate := 1\<rparr> \<and>
           (\<forall>y. sem w' y = (if y = SEM_FREE then sem w SEM_FREE + 20 else sem w y))"
proof -
  obtain w2 where "exec_seq (StoreTerminate Mapped 1 # replicate 20 (SemPost SEM_FREE)) (h, w) =
      Some (h, w2)"
    "shm w2 = (shm w)\<lparr>terminate := 1\<rparr>"
    "\<forall>y. sem w2 y = (if y = SEM_FREE then sem w SEM_FREE + 20 else sem w y)"
    using exec_seq_wake [OF assms(2,3), of 20 w] by blast
  then show ?thesis
    using exec_seq_append [of "StoreTerminate Mapped 1 # replicate 20 (SemPost SEM_FREE)" _ "(h, w)"]
    by (simp add: cleanup_acquired [OF assms(1)])
qed

lemma exec_cleanup_acquired:
  assumes "acquired g"
  shows "\<exists>w'. exec_calls (cleanup g) w = Some w' \<and> shm w' = (shm w)\<lparr>terminate := 1\<rparr> \<and>
           (\<forall>y. sem w' y = (if y = SEM_FREE then sem w SEM_FREE + 20 else sem w y))"
  using exec_seq_cleanup_acquired [OF assms, of all_held w]
  by (auto simp: exec_calls_def all_held_def)

text \<open>
  C4. One execution of \<^verbatim>\<open>cleanup()\<close> by a supervisor that holds all its resources makes
  these calls in this order: the store of 1 to \<^verbatim>\<open>terminate\<close>, exactly 20 posts of
  \<^verbatim>\<open>sem_free\<close>, then the close and unlink of each of the three semaphores, the unmap,
  the close of the descriptor and the unlink of the segment. On the shared objects this
  sets \<^verbatim>\<open>terminate\<close> to 1 and adds 20 to the free-slot semaphore, so a producer waiting at
  line 112 is admitted, also after \<open>k < 20\<close> other producers took their unit before it,
  reads \<^verbatim>\<open>terminate\<close> at line 113, writes nothing, detaches and returns.
\<close>

theorem shutdown_order:
  assumes "acquired g" and "k < 20" and "wait_errno env = None"
  shows "cleanup g =
           StoreTerminate Mapped 1 # replicate 20 (SemPost SEM_FREE) @
           [SemClose SEM_FREE, SemUnlink SEM_FREE, SemClose SEM_USED, SemUnlink SEM_USED,
            SemClose SEM_MUTEX, SemUnlink SEM_MUTEX, Munmap, Close, ShmUnlink] \<and>
         (\<exists>w'. exec_calls (cleanup g) w = Some w' \<and>
            terminate (shm w') = 1 \<and> sem w' SEM_FREE = sem w SEM_FREE + 20 \<and>
            (\<exists>w''. gen_run [(\<lambda>x. x\<lparr>sem := (sem x)(SEM_FREE := sem x SEM_FREE - k)\<rparr>, env),
                            (\<lambda>x. x, env), (\<lambda>x. x, env)] w' (p\<lparr>gpc := G112 sol\<rparr>) =
                  ([SemWait SEM_FREE, LoadTerminate 1, Munmap, SemClose SEM_FREE,
                    SemClose SEM_USED, SemClose SEM_MUTEX, Close],
                   w'', p\<lparr>gpc := G_exit EXIT_SUCCESS\<rparr>)))"
proof -
  obtain w' where w': "exec_calls (cleanup g) w = Some w'" "shm w' = (shm w)\<lparr>terminate := 1\<rparr>"
    "\<forall>y. sem w' y = (if y = SEM_FREE then sem w SEM_FREE + 20 else sem w y)"
    using exec_cleanup_acquired [OF assms(1)] by blast
  have "\<exists>w''. gen_run [(\<lambda>x. x\<lparr>sem := (sem x)(SEM_FREE := sem x SEM_FREE - k)\<rparr>, env),
                       (\<lambda>x. x, env), (\<lambda>x. x, env)] w' (p\<lparr>gpc := G112 sol\<rparr>) =
               ([SemWait SEM_FREE, LoadTerminate 1, Munmap, SemClose SEM_FREE,
                 SemClose SEM_USED, SemClose SEM_MUTEX, Close],
                w'', p\<lparr>gpc := G_exit EXIT_SUCCESS\<rparr>)"
    using assms(2,3) w'(2,3) by (simp add: gen_step_def sem_wait_def)
  then show ?thesis
    using w' cleanup_acquired [OF assms(1)] by simp
qed

theorem shutdown_order_witness:
  "acquired ex_globals \<and> (3::nat) < 20 \<and> wait_errno ex_env = None \<and>
   cleanup ex_globals =
     StoreTerminate Mapped 1 # replicate 20 (SemPost SEM_FREE) @
     [SemClose SEM_FREE, SemUnlink SEM_FREE, SemClose SEM_USED, SemUnlink SEM_USED,
      SemClose SEM_MUTEX, SemUnlink SEM_MUTEX, Munmap, Close, ShmUnlink] \<and>
   (\<exists>w'. exec_calls (cleanup ex_globals) ex_world = Some w' \<and>
      terminate (shm w') = 1 \<and> sem w' SEM_FREE = sem ex_world SEM_FREE + 20 \<and>
      (\<exists>w''. gen_run [(\<lambda>x. x\<lparr>sem := (sem x)(SEM_FREE := sem x SEM_FREE - 3)\<rparr>, ex_env),
                      (\<lambda>x. x, ex_env), (\<lambda>x. x, ex_env)] w' (ex_gen\<lparr>gpc := G112 (ex_sol 2)\<rparr>) =
            ([SemWait SEM_FREE, LoadTerminate 1, Munmap, SemClose SEM_FREE,
              SemClose SEM_USED, SemClose SEM_MUTEX, Close],
             w'', ex_gen\<lparr>gpc := G_exit EXIT_SUCCESS\<rparr>)))"
proof -
  have a: "acquired ex_globals" by (simp add: acquired_def ex_globals_def)
  have b: "(3::nat) < 20" by simp
  have c: "wait_errno ex_env = None" by (simp add: ex_env_def)
  from shutdown_order [OF a b c, where w = ex_world and p = ex_gen and sol = "ex_sol 2"] a b c
  show ?thesis by blast
qed

subsection \<open>The generator's command line and its colour array\<close>

declare show_nat.simps [simp del]

lemma digit_char:
  assumes "d < 10"
  shows "isdigit (char_of (48 + d))" "digit_val (char_of (48 + d)) = int d"
    "\<not> isspace (char_of (48 + d))" "char_of (48 + d) \<noteq> CHR ''-''" "char_of (48 + d) \<noteq> CHR ''+''"
proof -
  have o: "of_char (char_of (48 + d)) = 48 + d" using assms by simp
  show "isdigit (char_of (48 + d))" using assms o by (simp add: isdigit_def)
  show "digit_val (char_of (48 + d)) = int d" using o by (simp add: digit_val_def)
  have ne: "char_of (48 + d) \<noteq> c" if "(of_char c :: nat) \<noteq> 48 + d" for c
    using o that by auto
  show "char_of (48 + d) \<noteq> CHR ''-''" by (rule ne) simp
  show "char_of (48 + d) \<noteq> CHR ''+''" by (rule ne) simp
  have "char_of (48 + d) \<noteq> CHR '' ''" "char_of (48 + d) \<noteq> CHR 0x09" "char_of (48 + d) \<noteq> CHR 0x0A"
    "char_of (48 + d) \<noteq> CHR 0x0B" "char_of (48 + d) \<noteq> CHR 0x0C" "char_of (48 + d) \<noteq> CHR 0x0D"
    by (rule ne, simp)+
  then show "\<not> isspace (char_of (48 + d))" by (simp add: isspace_def)
qed

lemma show_nat_digits: "\<forall>c \<in> set (show_nat n). isdigit c"
proof (induction n rule: show_nat.induct)
  case (1 n)
  then show ?case
    using digit_char(1) [of n] digit_char(1) [of "n mod 10"]
    by (cases "n < 10") (simp_all add: show_nat.simps [of n])
qed

lemma show_nat_nonempty: "show_nat n \<noteq> []"
  by (simp add: show_nat.simps [of n])

lemma scan_digits_append:
  "\<forall>c \<in> set ds. isdigit c \<Longrightarrow>
   scan_digits acc (ds @ r) = scan_digits (foldl (\<lambda>a c. a * 10 + digit_val c) acc ds) r"
  by (induction ds arbitrary: acc) simp_all

lemma foldl_show_nat:
  "foldl (\<lambda>a c. a * 10 + digit_val c) acc (show_nat n) = acc * 10 ^ length (show_nat n) + int n"
proof (induction n arbitrary: acc rule: show_nat.induct)
  case (1 n)
  show ?case
  proof (cases "n < 10")
    case True
    then show ?thesis using digit_char(2) [of n] by (simp add: show_nat.simps [of n])
  next
    case False
    have "n = n div 10 * 10 + n mod 10" by simp
    then have "int n = int (n div 10 * 10 + n mod 10)" by (rule arg_cong)
    then have "int n = int (n div 10) * 10 + int (n mod 10)" by (simp only: of_nat_add of_nat_mult of_nat_numeral)
    then show ?thesis
      using False 1 [OF False] digit_char(2) [of "n mod 10"]
      by (simp add: show_nat.simps [of n] algebra_simps)
  qed
qed

lemma scan_digits_show_nat:
  assumes "case r of [] \<Rightarrow> True | c # _ \<Rightarrow> \<not> isdigit c"
  shows "scan_digits 0 (show_nat n @ r) = (int n, r)"
proof -
  have "scan_digits 0 (show_nat n @ r) = scan_digits (int n) r"
    by (simp add: scan_digits_append [OF show_nat_digits] foldl_show_nat)
  also have "\<dots> = (int n, r)" using assms by (cases r) simp_all
  finally show ?thesis .
qed

lemma show_nat_head:
  "\<exists>c cs. show_nat n = c # cs \<and> isdigit c \<and> \<not> isspace c \<and> c \<noteq> CHR ''-'' \<and> c \<noteq> CHR ''+''"
proof (induction n rule: show_nat.induct)
  case (1 n)
  show ?case
  proof (cases "n < 10")
    case True
    then show ?thesis using digit_char [of n] by (simp add: show_nat.simps [of n])
  next
    case False
    with 1 [OF False] show ?thesis by (auto simp add: show_nat.simps [of n])
  qed
qed

lemma scan_int_show_int:
  assumes "case r of [] \<Rightarrow> True | c # _ \<Rightarrow> \<not> isdigit c"
  shows "scan_int (show_int i @ r) = Some (i, r)"
proof (cases "i < 0")
  case True
  obtain c cs where h: "show_nat (nat (- i)) = c # cs" "isdigit c"
    using show_nat_head by blast
  have sp: "\<not> isspace CHR ''-''" by (simp add: isspace_def)
  have "scan_digits 0 (show_nat (nat (- i)) @ r) = (int (nat (- i)), r)"
    using assms by (rule scan_digits_show_nat)
  then show ?thesis
    using True h sp by (simp add: scan_int_def show_int_def)
next
  case False
  obtain c cs where h: "show_nat (nat i) = c # cs" "isdigit c" "\<not> isspace c" "c \<noteq> CHR ''-''" "c \<noteq> CHR ''+''"
    using show_nat_head by blast
  have "scan_digits 0 (show_nat (nat i) @ r) = (int (nat i), r)"
    using assms by (rule scan_digits_show_nat)
  then show ?thesis
    using False h by (simp add: scan_int_def show_int_def)
qed

lemma sscanf_edge_show_edge: "sscanf_edge (show_edge e) = Some e"
proof -
  have nd: "\<not> isdigit CHR ''-''" by (simp add: isdigit_def)
  have 1: "scan_int (show_int (u e) @ CHR ''-'' # show_int (v e)) = Some (u e, CHR ''-'' # show_int (v e))"
    by (rule scan_int_show_int) (simp add: nd)
  have 2: "scan_int (show_int (v e) @ []) = Some (v e, [])"
    by (rule scan_int_show_int) simp
  show ?thesis using 1 2 by (simp add: sscanf_edge_def show_edge_def)
qed


lemma parse_edges_show:
  "\<exists>g'. parse_edges (map show_edge es) g = Inr g' \<and> graph_edges g' = graph_edges g @ es \<and>
        num_edges g' = num_edges g \<and> max_node_id g \<le> max_node_id g' \<and>
        (\<forall>e \<in> set es. u e \<le> max_node_id g' \<and> v e \<le> max_node_id g') \<and>
        (max_node_id g' = max_node_id g \<or>
         (\<exists>e \<in> set es. max_node_id g' = u e \<or> max_node_id g' = v e))"
proof (induction es arbitrary: g)
  case Nil
  show ?case by simp
next
  case (Cons e es)
  let ?m1 = "if u e > max_node_id g then u e else max_node_id g"
  let ?m2 = "if v e > ?m1 then v e else ?m1"
  let ?g = "g\<lparr>graph_edges := graph_edges g @ [e], max_node_id := ?m2\<rparr>"
  obtain g' where g': "parse_edges (map show_edge es) ?g = Inr g'"
    "graph_edges g' = graph_edges ?g @ es" "num_edges g' = num_edges ?g"
    "max_node_id ?g \<le> max_node_id g'"
    "\<forall>e \<in> set es. u e \<le> max_node_id g' \<and> v e \<le> max_node_id g'"
    "max_node_id g' = max_node_id ?g \<or>
       (\<exists>e \<in> set es. max_node_id g' = u e \<or> max_node_id g' = v e)"
    using Cons [of ?g] by blast
  have "parse_edges (map show_edge (e # es)) g = Inr g'"
    using g'(1) by (simp add: sscanf_edge_show_edge Let_def)
  moreover have "u e \<le> max_node_id g'" "v e \<le> max_node_id g'" "max_node_id g \<le> max_node_id g'"
    using g'(4) by (simp_all split: if_splits)
  moreover have "max_node_id g' = max_node_id g \<or>
       (\<exists>x \<in> set (e # es). max_node_id g' = u x \<or> max_node_id g' = v x)"
    using g'(6) by (auto split: if_splits)
  ultimately show ?case using g'(2,3,5) by simp
qed

lemma parse_graph_show:
  assumes "length es \<le> 200"
  shows "\<exists>g. parse_graph (map show_edge es) = Inr g \<and> graph_edges g = es \<and>
           num_edges g = int (length es) \<and>
           (\<forall>e \<in> set es. u e \<le> max_node_id g \<and> v e \<le> max_node_id g) \<and>
           (max_node_id g = 0 \<or> (\<exists>e \<in> set es. max_node_id g = u e \<or> max_node_id g = v e))"
  using assms
    parse_edges_show [of es "\<lparr>graph_edges = [], num_edges = int (length es), max_node_id = 0\<rparr>"]
  by (auto simp: parse_graph_def MAX_EDGES_def)

lemma assign_colors_Inr:
  "assign_colors rd js cols = Inr cs \<Longrightarrow> (\<forall>i \<in> set js. int i < MAX_NODES) \<and> length cs = length cols"
  by (induction js arbitrary: cols) (auto simp: in_colors_def split: if_splits)

lemma assign_colors_ok:
  "\<forall>i \<in> set js. int i < MAX_NODES \<Longrightarrow> \<exists>cs. assign_colors rd js cols = Inr cs"
  by (induction js arbitrary: cols) (auto simp: in_colors_def)

lemma verify_edges_ok:
  "\<forall>e \<in> set es. in_colors (u e) \<and> in_colors (v e) \<Longrightarrow> \<exists>r. verify_edges cols es sol = Inr r"
  by (induction es arbitrary: sol) auto

lemma candidate_Inr_bound:
  assumes "candidate g rd cols junk = Inr r"
  shows "max_node_id g < MAX_NODES"
proof (rule ccontr)
  assume "\<not> max_node_id g < MAX_NODES"
  then have m: "MAX_NODES \<le> max_node_id g" by simp
  from assms obtain cs where "assign_colors rd [0 ..< nat (max_node_id g + 1)] cols = Inr cs"
    by (auto simp: candidate_def split: sum.splits)
  then have "\<forall>i \<in> set [0 ..< nat (max_node_id g + 1)]. int i < MAX_NODES"
    using assign_colors_Inr by blast
  moreover have "nat (max_node_id g) \<in> set [0 ..< nat (max_node_id g + 1)]"
    using m by (simp add: MAX_NODES_def)
  ultimately have "int (nat (max_node_id g)) < MAX_NODES" by blast
  with m show False by (simp add: MAX_NODES_def)
qed

lemma candidate_ok:
  assumes "max_node_id g < MAX_NODES"
    and "\<forall>e \<in> set (graph_edges g). in_colors (u e) \<and> in_colors (v e)"
  shows "\<exists>r. candidate g rd cols junk = Inr r"
proof -
  have "\<forall>i \<in> set [0 ..< nat (max_node_id g + 1)]. int i < MAX_NODES"
    using assms(1) by auto
  then obtain cs where cs: "assign_colors rd [0 ..< nat (max_node_id g + 1)] cols = Inr cs"
    using assign_colors_ok by blast
  have "\<forall>e \<in> set (take (nat (num_edges g)) (graph_edges g)). in_colors (u e) \<and> in_colors (v e)"
    using assms(2) by (meson in_set_takeD)
  then obtain r where "verify_edges cs (take (nat (num_edges g)) (graph_edges g))
      \<lparr>edge_count = 0, edges = map junk [0 ..< nat MAX_REMOVED_EDGES]\<rparr> = Inr r"
    using verify_edges_ok by blast
  then show ?thesis using cs by (cases r) (simp add: candidate_def)
qed

text \<open>
  C9. \<^verbatim>\<open>parse_graph\<close> accepts every list of at most 200 edges written as \<^verbatim>\<open>u-v\<close>,
  whatever the node numbers are, and stores the edges as given. For the graph it stored,
  one round of candidate generation (the colour assignment and the conflict check, for
  any values of \<^verbatim>\<open>rand()\<close>) stays inside \<^verbatim>\<open>colors[MAX_NODES]\<close> only if every node
  number of the list is below 100; and it does stay inside when every node number is at
  least 0 and below 100.
\<close>

theorem colors_in_bounds_only_below_MAX_NODES:
  assumes "length es \<le> 200"
  shows "\<exists>g. parse_graph (map show_edge es) = Inr g \<and> graph_edges g = es \<and>
           num_edges g = int (length es) \<and>
           (\<forall>rd cols junk.
              ((\<exists>r. candidate g rd cols junk = Inr r) \<longrightarrow>
                 (\<forall>e \<in> set es. u e < MAX_NODES \<and> v e < MAX_NODES)) \<and>
              ((\<forall>e \<in> set es. 0 \<le> u e \<and> u e < MAX_NODES \<and> 0 \<le> v e \<and> v e < MAX_NODES) \<longrightarrow>
                 (\<exists>r. candidate g rd cols junk = Inr r)))"
proof -
  obtain g where g: "parse_graph (map show_edge es) = Inr g" "graph_edges g = es"
    "num_edges g = int (length es)"
    "\<forall>e \<in> set es. u e \<le> max_node_id g \<and> v e \<le> max_node_id g"
    "max_node_id g = 0 \<or> (\<exists>e \<in> set es. max_node_id g = u e \<or> max_node_id g = v e)"
    using parse_graph_show [OF assms] by blast
  have nec: "\<forall>e \<in> set es. u e < MAX_NODES \<and> v e < MAX_NODES"
    if "candidate g rd cols junk = Inr r" for rd cols junk r
    using candidate_Inr_bound [OF that] g(4) by fastforce
  have suf: "\<exists>r. candidate g rd cols junk = Inr r"
    if "\<forall>e \<in> set es. 0 \<le> u e \<and> u e < MAX_NODES \<and> 0 \<le> v e \<and> v e < MAX_NODES"
    for rd cols junk
  proof (rule candidate_ok)
    show "\<forall>e \<in> set (graph_edges g). in_colors (u e) \<and> in_colors (v e)"
      using that g(2) by (simp add: in_colors_def)
    show "max_node_id g < MAX_NODES" using that g(5) by (auto simp: MAX_NODES_def)
  qed
  show ?thesis using g(1,2,3) nec suf by blast
qed


theorem colors_in_bounds_only_below_MAX_NODES_witness:
  "length (graph_edges ex_graph) \<le> 200 \<and>
   (\<exists>g. parse_graph (map show_edge (graph_edges ex_graph)) = Inr g \<and>
      graph_edges g = graph_edges ex_graph \<and>
      num_edges g = int (length (graph_edges ex_graph)) \<and>
      (\<forall>rd cols junk.
         ((\<exists>r. candidate g rd cols junk = Inr r) \<longrightarrow>
            (\<forall>e \<in> set (graph_edges ex_graph). u e < MAX_NODES \<and> v e < MAX_NODES)) \<and>
         ((\<forall>e \<in> set (graph_edges ex_graph).
             0 \<le> u e \<and> u e < MAX_NODES \<and> 0 \<le> v e \<and> v e < MAX_NODES) \<longrightarrow>
            (\<exists>r. candidate g rd cols junk = Inr r))))"
proof -
  have h: "length (graph_edges ex_graph) \<le> 200" by (simp add: ex_graph_def)
  from colors_in_bounds_only_below_MAX_NODES [OF h] h show ?thesis by blast
qed

text \<open>
  Two accepted command lines on which the first round leaves the array: a node number of
  100, and a negative one.
\<close>

lemma assign_colors_append:
  "assign_colors rd (xs @ ys) cols =
     (case assign_colors rd xs cols of Inl f \<Rightarrow> Inl f | Inr cs \<Rightarrow> assign_colors rd ys cs)"
  by (induction xs arbitrary: cols) simp_all

lemma candidate_out_of_bounds:
  assumes "MAX_NODES \<le> max_node_id g"
  shows "candidate g rd cols junk = Inl (OutOfBounds 100)"
proof -
  have "[0 ..< nat (max_node_id g + 1)] = [0 ..< 100] @ 100 # [101 ..< nat (max_node_id g + 1)]"
    using assms upt_add_eq_append [of 0 100 "nat (max_node_id g + 1) - 100"]
    by (simp add: MAX_NODES_def upt_conv_Cons)
  moreover obtain cs where "assign_colors rd [0 ..< 100] cols = Inr cs"
    using assign_colors_ok [of "[0 ..< 100]" rd cols] by (auto simp: MAX_NODES_def)
  ultimately show ?thesis
    by (simp add: candidate_def assign_colors_append in_colors_def MAX_NODES_def)
qed

lemma node_100_out_of_bounds:
  "parse_graph [''100-0''] =
     Inr \<lparr>graph_edges = [\<lparr>u = 100, v = 0\<rparr>], num_edges = 1, max_node_id = 100\<rparr> \<and>
   candidate \<lparr>graph_edges = [\<lparr>u = 100, v = 0\<rparr>], num_edges = 1, max_node_id = 100\<rparr>
     rd cols junk = Inl (OutOfBounds 100)"
proof -
  have "parse_graph [''100-0''] =
     Inr \<lparr>graph_edges = [\<lparr>u = 100, v = 0\<rparr>], num_edges = 1, max_node_id = 100\<rparr>"
    by code_simp
  then show ?thesis by (simp add: candidate_out_of_bounds MAX_NODES_def)
qed

lemma negative_node_out_of_bounds:
  "parse_graph [''-1-2''] =
     Inr \<lparr>graph_edges = [\<lparr>u = - 1, v = 2\<rparr>], num_edges = 1, max_node_id = 2\<rparr> \<and>
   candidate \<lparr>graph_edges = [\<lparr>u = - 1, v = 2\<rparr>], num_edges = 1, max_node_id = 2\<rparr>
     rd cols junk = Inl (OutOfBounds (- 1))"
proof -
  have "parse_graph [''-1-2''] =
     Inr \<lparr>graph_edges = [\<lparr>u = - 1, v = 2\<rparr>], num_edges = 1, max_node_id = 2\<rparr>"
    by code_simp
  moreover obtain cs where "assign_colors rd [0 ..< 3] cols = Inr cs"
    using assign_colors_ok [of "[0 ..< 3]" rd cols] by (auto simp: MAX_NODES_def)
  ultimately show ?thesis
    by (simp add: candidate_def in_colors_def)
qed

subsection \<open>The producer's write protocol\<close>

lemma gen_run_exited:
  "gpc p = G_exit c \<or> gpc p = G_fault f \<Longrightarrow> \<exists>w'. gen_run sched w p = ([], w', p)"
proof (induction sched arbitrary: w)
  case Nil
  show ?case by simp
next
  case (Cons a sched)
  obtain others env where a: "a = (others, env)" by (cases a)
  have "gen_step env (others w) p = None" using Cons.prems by (auto simp: gen_step_def)
  with Cons.IH [OF Cons.prems, of "others w"] a show ?case by simp
qed

lemma gen_run_G130:
  assumes "gpc p = G130" and "gen_run sched w p = (tr, w', p')"
  shows "(tr = [] \<and> p' = p) \<or> (tr = detach \<and> p' = p\<lparr>gpc := G_exit EXIT_SUCCESS\<rparr>)"
proof (cases sched)
  case Nil
  with assms show ?thesis by simp
next
  case (Cons a sched')
  obtain others env where a: "a = (others, env)" by (cases a)
  have s: "gen_step env (others w) p =
      Some (detach, others w, p\<lparr>gpc := G_exit EXIT_SUCCESS\<rparr>)"
    using assms(1) by (simp add: gen_step_def detach_def)
  obtain w2 where "gen_run sched' (others w) (p\<lparr>gpc := G_exit EXIT_SUCCESS\<rparr>) =
      ([], w2, p\<lparr>gpc := G_exit EXIT_SUCCESS\<rparr>)"
    using gen_run_exited [of "p\<lparr>gpc := G_exit EXIT_SUCCESS\<rparr>" EXIT_SUCCESS] by auto
  with s assms(2) Cons a show ?thesis by simp
qed


lemma gen_run_first_step:
  assumes "gen_run sched w p = (tr, w', p')"
  shows "(tr = [] \<and> p' = p) \<or>
         (\<exists>env w0 cs w1 p1 sched1 tr1.
            gen_step env w0 p = Some (cs, w1, p1) \<and>
            gen_run sched1 w1 p1 = (tr1, w', p') \<and> tr = cs @ tr1)"
  using assms
proof (induction sched arbitrary: w)
  case Nil
  then show ?case by simp
next
  case (Cons a sched)
  obtain others env where a: "a = (others, env)" by (cases a)
  show ?case
  proof (cases "gen_step env (others w) p")
    case None
    with Cons.prems a have "gen_run sched (others w) p = (tr, w', p')" by simp
    then show ?thesis by (rule Cons.IH)
  next
    case (Some r)
    obtain cs w1 p1 where r: "r = (cs, w1, p1)" by (cases r)
    obtain tr1 w2 p2 where run: "gen_run sched w1 p1 = (tr1, w2, p2)"
      by (cases "gen_run sched w1 p1")
    with Cons.prems a Some r have "tr = cs @ tr1" "w2 = w'" "p2 = p'" by simp_all
    with Some r run show ?thesis by blast
  qed
qed

lemma stage_G126:
  assumes "gpc p = G126" and "gen_run sched w p = (tr, w', p')"
  shows "prefix tr [SemPost SEM_USED] \<or> prefix [SemPost SEM_USED] tr"
  using gen_run_first_step [OF assms(2)] assms(1)
  by (auto simp: gen_step_def)

lemma stage_G122:
  assumes "gpc p = G122" and "gen_run sched w p = (tr, w', p')"
  shows "prefix tr [SemPost SEM_MUTEX, SemPost SEM_USED] \<or>
         prefix [SemPost SEM_MUTEX, SemPost SEM_USED] tr"
  using gen_run_first_step [OF assms(2)] assms(1)
  by (auto simp: gen_step_def dest: stage_G126 [rotated])

lemma stage_G120:
  assumes "gpc p = G120 idx" and "gen_run sched w p = (tr, w', p')"
  shows "prefix tr (drop 5 (publish_calls sol idx)) \<or> prefix (drop 5 (publish_calls sol idx)) tr"
  using gen_run_first_step [OF assms(2)] assms(1)
  by (auto simp: gen_step_def publish_calls_def dest: stage_G122 [rotated])

lemma stage_G119:
  assumes "gpc p = G119 sol idx" and "gen_run sched w p = (tr, w', p')"
  shows "prefix tr (drop 4 (publish_calls sol idx)) \<or> prefix (drop 4 (publish_calls sol idx)) tr"
proof -
  from gen_run_first_step [OF assms(2)] show ?thesis
  proof (elim disjE exE conjE)
    assume "tr = []" then show ?thesis by simp
  next
    fix env w0 cs w1 p1 sched1 tr1
    assume st: "gen_step env w0 p = Some (cs, w1, p1)"
      and run: "gen_run sched1 w1 p1 = (tr1, w', p')" and tr: "tr = cs @ tr1"
    from st assms(1) have "(cs = [StoreBuffer idx sol] \<and> gpc p1 = G120 idx) \<or>
          (cs = [] \<and> gpc p1 = G_fault (OutOfBounds idx))"
      by (auto simp: gen_step_def split: if_splits)
    then show ?thesis
    proof
      assume c: "cs = [StoreBuffer idx sol] \<and> gpc p1 = G120 idx"
      with stage_G120 [OF _ run, of idx sol] tr show ?thesis
        by (auto simp: publish_calls_def)
    next
      assume f: "cs = [] \<and> gpc p1 = G_fault (OutOfBounds idx)"
      then have "tr1 = []" using gen_run_exited [of p1 _ "OutOfBounds idx" sched1 w1] run by auto
      with f tr show ?thesis by simp
    qed
  qed
qed

lemma stage_G118:
  assumes "gpc p = G118 sol" and "gen_run sched w p = (tr, w', p')"
  shows "\<exists>idx. prefix tr (drop 3 (publish_calls sol idx)) \<or> prefix (drop 3 (publish_calls sol idx)) tr"
proof -
  from gen_run_first_step [OF assms(2)] show ?thesis
  proof (elim disjE exE conjE)
    assume "tr = []" then show ?thesis by simp
  next
    fix env w0 cs w1 p1 sched1 tr1
    assume st: "gen_step env w0 p = Some (cs, w1, p1)"
      and run: "gen_run sched1 w1 p1 = (tr1, w', p')" and tr: "tr = cs @ tr1"
    from st assms(1) obtain idx where "cs = [LoadWriteIndex idx]" "gpc p1 = G119 sol idx"
      by (auto simp: gen_step_def)
    with stage_G119 [OF _ run, of sol idx] tr have
      "prefix tr (drop 3 (publish_calls sol idx)) \<or> prefix (drop 3 (publish_calls sol idx)) tr"
      by (auto simp: publish_calls_def)
    then show ?thesis ..
  qed
qed

lemma stage_G116:
  assumes "gpc p = G116 sol" and "gen_run sched w p = (tr, w', p')"
  shows "\<exists>idx. prefix tr (drop 2 (publish_calls sol idx)) \<or> prefix (drop 2 (publish_calls sol idx)) tr"
proof -
  from gen_run_first_step [OF assms(2)] show ?thesis
  proof (elim disjE exE conjE)
    assume "tr = []" then show ?thesis by simp
  next
    fix env w0 cs w1 p1 sched1 tr1
    assume st: "gen_step env w0 p = Some (cs, w1, p1)"
      and run: "gen_run sched1 w1 p1 = (tr1, w', p')" and tr: "tr = cs @ tr1"
    from st assms(1) have "cs = [SemWait SEM_MUTEX]" "gpc p1 = G118 sol"
      by (auto simp: gen_step_def split: option.splits)
    with stage_G118 [OF _ run, of sol] tr show ?thesis
      by (auto simp: publish_calls_def)
  qed
qed

lemma stage_G113:
  assumes "gpc p = G113 sol" and "gen_run sched w p = (tr, w', p')"
  shows "(\<exists>t. t \<noteq> 0 \<and> prefix tr (LoadTerminate t # detach)) \<or>
         (\<exists>idx. prefix tr (drop 1 (publish_calls sol idx)) \<or> prefix (drop 1 (publish_calls sol idx)) tr)"
proof -
  from gen_run_first_step [OF assms(2)] show ?thesis
  proof (elim disjE exE conjE)
    assume "tr = []" then show ?thesis by simp
  next
    fix env w0 cs w1 p1 sched1 tr1
    assume st: "gen_step env w0 p = Some (cs, w1, p1)"
      and run: "gen_run sched1 w1 p1 = (tr1, w', p')" and tr: "tr = cs @ tr1"
    from st assms(1) have "(\<exists>t. t \<noteq> 0 \<and> cs = [LoadTerminate t] \<and> gpc p1 = G130) \<or>
        (cs = [LoadTerminate 0] \<and> gpc p1 = G116 sol)"
      by (auto simp: gen_step_def split: if_splits)
    then show ?thesis
    proof (elim disjE exE conjE)
      fix t assume t: "t \<noteq> 0" "cs = [LoadTerminate t]" "gpc p1 = G130"
      with gen_run_G130 [OF t(3) run] tr have "prefix tr (LoadTerminate t # detach)" by auto
      with t(1) show ?thesis by blast
    next
      assume c: "cs = [LoadTerminate 0]" "gpc p1 = G116 sol"
      with stage_G116 [OF c(2) run] tr show ?thesis
        by (auto simp: publish_calls_def)
    qed
  qed
qed

lemma order_general:
  assumes "gen_run sched w (p\<lparr>gpc := G112 sol\<rparr>) = (tr, w', p')"
  shows "(\<exists>e. prefix tr (SemWaitFailed SEM_FREE e # detach)) \<or>
         (\<exists>t. t \<noteq> 0 \<and> prefix tr (SemWait SEM_FREE # LoadTerminate t # detach)) \<or>
         (\<exists>idx. prefix tr (publish_calls sol idx) \<or> prefix (publish_calls sol idx) tr)"
proof -
  from gen_run_first_step [OF assms] show ?thesis
  proof (elim disjE exE conjE)
    assume "tr = []" then show ?thesis by simp
  next
    fix env w0 cs w1 p1 sched1 tr1
    assume st: "gen_step env w0 (p\<lparr>gpc := G112 sol\<rparr>) = Some (cs, w1, p1)"
      and run: "gen_run sched1 w1 p1 = (tr1, w', p')" and tr: "tr = cs @ tr1"
    from st have "(\<exists>e. cs = [SemWaitFailed SEM_FREE e] \<and> gpc p1 = G130) \<or>
        (cs = [SemWait SEM_FREE] \<and> gpc p1 = G113 sol)"
      by (auto simp: gen_step_def split: option.splits)
    then show ?thesis
    proof (elim disjE exE conjE)
      fix e assume e: "cs = [SemWaitFailed SEM_FREE e]" "gpc p1 = G130"
      with gen_run_G130 [OF e(2) run] tr have "prefix tr (SemWaitFailed SEM_FREE e # detach)" by auto
      then show ?thesis by blast
    next
      assume c: "cs = [SemWait SEM_FREE]" "gpc p1 = G113 sol"
      from stage_G113 [OF c(2) run] tr c(1) show ?thesis
        by (auto simp: publish_calls_def)
    qed
  qed
qed

lemma c_rem_nonneg: "0 \<le> a \<Longrightarrow> 0 < b \<Longrightarrow> c_rem a b = a mod b"
  by (cases "a = 0") (simp_all add: c_rem_def)

lemma publish_alone:
  assumes "wait_errno env = None" "0 < sem w SEM_FREE" "0 < sem w SEM_MUTEX"
    "terminate (shm w) = 0" "0 \<le> write_index (shm w)" "write_index (shm w) < BUFFER_SIZE"
  shows "\<exists>w'. gen_run (replicate 8 (\<lambda>x. x, env)) w (p\<lparr>gpc := G112 sol\<rparr>) =
            (publish_calls sol (write_index (shm w)), w', p\<lparr>gpc := G82\<rparr>) \<and>
          buffer (shm w') = (buffer (shm w))[nat (write_index (shm w)) := sol] \<and>
          write_index (shm w') = (write_index (shm w) + 1) mod BUFFER_SIZE \<and>
          read_index (shm w') = read_index (shm w) \<and> terminate (shm w') = 0 \<and>
          sem w' SEM_FREE = sem w SEM_FREE - 1 \<and> sem w' SEM_USED = sem w SEM_USED + 1 \<and>
          sem w' SEM_MUTEX = sem w SEM_MUTEX"
  using assms
  by (simp add: numeral_eq_Suc gen_step_def sem_wait_def sem_post_def publish_calls_def
      c_rem_nonneg BUFFER_SIZE_def)

lemma terminate_seen_alone:
  assumes "wait_errno env = None" "0 < sem w SEM_FREE" "terminate (shm w) \<noteq> 0"
  shows "\<exists>w'. gen_run (replicate 3 (\<lambda>x. x, env)) w (p\<lparr>gpc := G112 sol\<rparr>) =
            (SemWait SEM_FREE # LoadTerminate (terminate (shm w)) # detach, w',
             p\<lparr>gpc := G_exit EXIT_SUCCESS\<rparr>) \<and>
          shm w' = shm w \<and>
          sem w' SEM_FREE = sem w SEM_FREE - 1 \<and> sem w' SEM_USED = sem w SEM_USED \<and>
          sem w' SEM_MUTEX = sem w SEM_MUTEX"
  using assms
  by (simp add: numeral_eq_Suc gen_step_def sem_wait_def detach_def)

text \<open>
  C1. A producer that stands at line 112 with a candidate makes its calls in this order,
  whatever the other processes do between its steps and wherever the run is cut off:
  the wait on \<^verbatim>\<open>sem_free\<close>; the read of \<^verbatim>\<open>terminate\<close>, after which, if it read a
  non-zero value, only the detaching follows (no store, and no post that would give the
  free slot back); else the wait on \<^verbatim>\<open>sem_mutex\<close>, the read of \<^verbatim>\<open>write_index\<close>, the
  store of the candidate into that slot, the store of the index plus one modulo 20, the
  post of \<^verbatim>\<open>sem_mutex\<close> and the post of \<^verbatim>\<open>sem_used\<close>. Run without interruption on
  objects with a free slot, these calls have the effect the protocol names: with
  \<^verbatim>\<open>terminate\<close> set, one unit less in \<^verbatim>\<open>sem_free\<close> and nothing else; with
  \<^verbatim>\<open>terminate\<close> clear, the candidate in \<^verbatim>\<open>buffer[write_index]\<close>, the index advanced
  modulo 20, one unit moved from \<^verbatim>\<open>sem_free\<close> to \<^verbatim>\<open>sem_used\<close> and \<^verbatim>\<open>sem_mutex\<close>
  as before.
\<close>

theorem write_protocol_order:
  "(gen_run sched w0 (p\<lparr>gpc := G112 sol\<rparr>) = (tr, w1, p1) \<longrightarrow>
      (\<exists>e. prefix tr (SemWaitFailed SEM_FREE e # detach)) \<or>
      (\<exists>t. t \<noteq> 0 \<and> prefix tr (SemWait SEM_FREE # LoadTerminate t # detach)) \<or>
      (\<exists>idx. prefix tr (publish_calls sol idx) \<or> prefix (publish_calls sol idx) tr)) \<and>
   (wait_errno env = None \<and> 0 < sem w SEM_FREE \<and> terminate (shm w) \<noteq> 0 \<longrightarrow>
      (\<exists>w'. gen_run (replicate 3 (\<lambda>x. x, env)) w (p\<lparr>gpc := G112 sol\<rparr>) =
                (SemWait SEM_FREE # LoadTerminate (terminate (shm w)) # detach, w',
                 p\<lparr>gpc := G_exit EXIT_SUCCESS\<rparr>) \<and>
             shm w' = shm w \<and>
             sem w' SEM_FREE = sem w SEM_FREE - 1 \<and> sem w' SEM_USED = sem w SEM_USED \<and>
             sem w' SEM_MUTEX = sem w SEM_MUTEX)) \<and>
   (wait_errno env = None \<and> 0 < sem w SEM_FREE \<and> 0 < sem w SEM_MUTEX \<and>
    terminate (shm w) = 0 \<and> 0 \<le> write_index (shm w) \<and> write_index (shm w) < BUFFER_SIZE \<longrightarrow>
      (\<exists>w'. gen_run (replicate 8 (\<lambda>x. x, env)) w (p\<lparr>gpc := G112 sol\<rparr>) =
                (publish_calls sol (write_index (shm w)), w', p\<lparr>gpc := G82\<rparr>) \<and>
             buffer (shm w') = (buffer (shm w))[nat (write_index (shm w)) := sol] \<and>
             write_index (shm w') = (write_index (shm w) + 1) mod BUFFER_SIZE \<and>
             read_index (shm w') = read_index (shm w) \<and> terminate (shm w') = 0 \<and>
             sem w' SEM_FREE = sem w SEM_FREE - 1 \<and> sem w' SEM_USED = sem w SEM_USED + 1 \<and>
             sem w' SEM_MUTEX = sem w SEM_MUTEX))"
  using order_general [where sched = sched and w = w0 and p = p and sol = sol and tr = tr]
    terminate_seen_alone [where env = env and w = w and p = p and sol = sol]
    publish_alone [where env = env and w = w and p = p and sol = sol]
  by blast

theorem write_protocol_order_witness:
  "\<exists>w'. gen_run (replicate 8 (\<lambda>x. x, ex_env)) ex_world (ex_gen\<lparr>gpc := G112 (ex_sol 2)\<rparr>) =
          (publish_calls (ex_sol 2) 0, w', ex_gen\<lparr>gpc := G82\<rparr>) \<and>
        buffer (shm w') = (replicate 20 (ex_sol 0))[0 := ex_sol 2] \<and>
        write_index (shm w') = 1 \<and> sem w' SEM_FREE = 19 \<and> sem w' SEM_USED = 1 \<and>
        sem w' SEM_MUTEX = 1"
proof -
  have h: "wait_errno ex_env = None \<and> 0 < sem ex_world SEM_FREE \<and> 0 < sem ex_world SEM_MUTEX \<and>
    terminate (shm ex_world) = 0 \<and> 0 \<le> write_index (shm ex_world) \<and>
    write_index (shm ex_world) < BUFFER_SIZE"
    by (simp add: ex_env_def ex_world_def init_world_def BUFFER_SIZE_def)
  have v: "write_index (shm ex_world) = 0" "buffer (shm ex_world) = replicate 20 (ex_sol 0)"
    "sem ex_world SEM_FREE = 20" "sem ex_world SEM_USED = 0" "sem ex_world SEM_MUTEX = 1"
    by (simp_all add: ex_world_def init_world_def BUFFER_SIZE_def)
  from write_protocol_order [where w = ex_world and env = ex_env and p = ex_gen
      and sol = "ex_sol 2"] h
  obtain w' where
    "gen_run (replicate 8 (\<lambda>x. x, ex_env)) ex_world (ex_gen\<lparr>gpc := G112 (ex_sol 2)\<rparr>) =
       (publish_calls (ex_sol 2) (write_index (shm ex_world)), w', ex_gen\<lparr>gpc := G82\<rparr>)"
    "buffer (shm w') = (buffer (shm ex_world))[nat (write_index (shm ex_world)) := ex_sol 2]"
    "write_index (shm w') = (write_index (shm ex_world) + 1) mod BUFFER_SIZE"
    "sem w' SEM_FREE = sem ex_world SEM_FREE - 1" "sem w' SEM_USED = sem ex_world SEM_USED + 1"
    "sem w' SEM_MUTEX = sem ex_world SEM_MUTEX"
    by blast
  then show ?thesis by (simp add: v BUFFER_SIZE_def)
qed

subsection \<open>How the producer ends\<close>







subsection \<open>The supervisor's best result\<close>

lemma loaded_append: "loaded (cs @ ds) = loaded cs @ loaded ds"
  by (induction cs rule: loaded.induct) simp_all

lemma least_append: "least b (xs @ ys) = least (least b xs) ys"
  by (simp add: least_def)

lemma loaded_posts: "loaded (replicate n (SemPost x)) = []"
  by (induction n) simp_all

lemma loaded_cleanup: "loaded (cleanup g) = []"
  by (simp add: cleanup_def loaded_append loaded_posts)

lemma loaded_Printf: "loaded (map Printf msgs) = []"
  by (induction msgs) simp_all

text \<open>The least count the supervisor knows: its best and the record it holds.\<close>

lemma check_better_min: "fst (check_better best sol) = min best (edge_count sol)"
  by (simp add: check_better_def)

lemma sup_step_least:
  assumes "sup_step env w p = Some (cs, w1, p1)" and "\<not> signal env"
    and "\<forall>h rest. spc p = S32 h rest \<longrightarrow> loaded rest = []"
  shows "least (best_edge_count p1) (held (spc p1)) =
           least (least (best_edge_count p) (held (spc p))) (loaded cs) \<and>
         (\<forall>h rest. spc p1 = S32 h rest \<longrightarrow> loaded rest = [])"
proof (cases "spc p")
  case (S185 sol)
  obtain b m l where c: "check_better (best_edge_count p) sol = (b, m, l)"
    by (cases "check_better (best_edge_count p) sol")
  with check_better_min [of "best_edge_count p" sol] have "b = min (best_edge_count p) (edge_count sol)"
    by simp
  with assms S185 c show ?thesis
    by (auto simp: sup_step_def least_def loaded_Printf split: if_splits)
next
  case (S32 h rest)
  show ?thesis
  proof (cases rest)
    case Nil
    with assms S32 show ?thesis by (auto simp: sup_step_def least_def)
  next
    case (Cons c rest')
    have "loaded [c] = []" "loaded rest' = []"
      using assms(3) S32 Cons loaded_append [of "[c]" rest'] by simp_all
    with assms(1,2) S32 Cons show ?thesis
      by (auto simp: sup_step_def least_def split: option.splits prod.splits)
  qed
qed (use assms in \<open>auto simp: sup_step_def least_def Let_def loaded_cleanup
      split: option.splits if_splits\<close>)

lemma sup_run_least:
  assumes "sup_run sched w p = (tr, w', p')"
    and "list_all (\<lambda>(others, env). \<not> signal env) sched"
    and "\<forall>h rest. spc p = S32 h rest \<longrightarrow> loaded rest = []"
  shows "least (best_edge_count p') (held (spc p')) =
           least (least (best_edge_count p) (held (spc p))) (loaded tr)"
  using assms
proof (induction sched arbitrary: w p tr)
  case Nil
  then show ?case by (simp add: least_def)
next
  case (Cons a sched)
  obtain others env where a: "a = (others, env)" by (cases a)
  from Cons.prems(2) a have ns: "\<not> signal env" and rest: "list_all (\<lambda>(others, env). \<not> signal env) sched"
    by simp_all
  show ?case
  proof (cases "sup_step env (others w) p")
    case None
    with Cons.prems a have "sup_run sched (others w) p = (tr, w', p')" by simp
    from Cons.IH [OF this rest Cons.prems(3)] show ?thesis .
  next
    case (Some r)
    obtain cs w1 p1 where r: "r = (cs, w1, p1)" by (cases r)
    obtain tr1 where run: "sup_run sched w1 p1 = (tr1, w', p')" and tr: "tr = cs @ tr1"
      using Cons.prems a Some r by (auto split: prod.splits)
    note st = sup_step_least [OF Some [unfolded r] ns Cons.prems(3)]
    from Cons.IH [OF run rest] st tr show ?thesis
      by (simp add: loaded_append least_append)
  qed
qed


text \<open>
  C7. The comparison of lines 185 to 193 keeps the smaller of the best count and the
  record's count. A record whose count is not strictly smaller than the best (an equal
  one too) changes nothing and prints nothing; a strictly smaller one becomes the best
  and is announced. Over a whole run without a signal, from the start of serving and
  under any interference, the best count is the least \<^verbatim>\<open>edge_count\<close> among
  \<^verbatim>\<open>MAX_REMOVED_EDGES + 1\<close> and the records read, whenever no record is held
  uncompared.
\<close>

theorem best_is_least_edge_count:
  "fst (check_better best sol) = min best (edge_count sol) \<and>
   (best \<le> edge_count sol \<longrightarrow> check_better best sol = (best, [], False)) \<and>
   (edge_count sol < best \<longrightarrow>
      fst (check_better best sol) = edge_count sol \<and>
      hd (fst (snd (check_better best sol))) = NewBest (edge_count sol)) \<and>
   (serving_start p \<and> list_all (\<lambda>(others, env). \<not> signal env) sched \<and>
    sup_run sched w p = (tr, w', p') \<and> held (spc p') = [] \<longrightarrow>
      best_edge_count p' = least (MAX_REMOVED_EDGES + 1) (loaded tr))"
proof -
  have run: "best_edge_count p' = least (MAX_REMOVED_EDGES + 1) (loaded tr)"
    if "serving_start p" "list_all (\<lambda>(others, env). \<not> signal env) sched"
      "sup_run sched w p = (tr, w', p')" "held (spc p') = []"
  proof -
    from that(1) have s: "spc p = S167" "best_edge_count p = MAX_REMOVED_EDGES + 1"
      by (simp_all add: serving_start_def)
    from sup_run_least [OF that(3) that(2)] s that(4) show ?thesis
      by (simp add: least_def)
  qed
  show ?thesis
    using run by (auto simp: check_better_def)
qed

theorem best_is_least_edge_count_witness:
  "check_better 3 (ex_sol 3) = (3, [], False) \<and>
   fst (check_better 3 (ex_sol 1)) = 1 \<and>
   (\<exists>tr w' p'. sup_run (replicate 15 (\<lambda>x. x, no_signal)) ex_filled ex_supervisor = (tr, w', p') \<and>
      loaded tr = [ex_sol 3, ex_sol 3, ex_sol 1] \<and> spc p' = S167 \<and> best_edge_count p' = 1)"
proof -
  have s: "serving_start ex_supervisor"
    by (simp add: serving_start_def ex_supervisor_def ex_globals_def)
  have n: "list_all (\<lambda>(others, env). \<not> signal env) (replicate 15 (\<lambda>x. x, no_signal))"
    by (simp add: list_all_iff no_signal_def)
  obtain tr w' p' where r: "sup_run (replicate 15 (\<lambda>x. x, no_signal)) ex_filled ex_supervisor = (tr, w', p')"
    by (cases "sup_run (replicate 15 (\<lambda>x. x, no_signal)) ex_filled ex_supervisor")
  have "fst (sup_run (replicate 15 (\<lambda>x. x, no_signal)) ex_filled ex_supervisor)
          = [LoadTerminate 0, SemWait SEM_USED, LoadBuffer 0 (ex_sol 3), StoreReadIndex 1,
             SemPost SEM_FREE, Printf (NewBest 3),
             LoadTerminate 0, SemWait SEM_USED, LoadBuffer 1 (ex_sol 3), StoreReadIndex 2,
             SemPost SEM_FREE,
             LoadTerminate 0, SemWait SEM_USED, LoadBuffer 2 (ex_sol 1), StoreReadIndex 3,
             SemPost SEM_FREE, Printf (NewBest 1)] \<and>
        spc (snd (snd (sup_run (replicate 15 (\<lambda>x. x, no_signal)) ex_filled ex_supervisor))) = S167"
    by (simp add: numeral_eq_Suc sup_step_def no_signal_def ex_filled_def ex_supervisor_def
        sem_wait_def sem_post_def check_better_def ex_sol_def c_rem_def BUFFER_SIZE_def
        MAX_REMOVED_EDGES_def Let_def)
  with r have tr: "loaded tr = [ex_sol 3, ex_sol 3, ex_sol 1]" and pc: "spc p' = S167"
    by simp_all
  from best_is_least_edge_count [where p = ex_supervisor and sched = "replicate 15 (\<lambda>x. x, no_signal)"
      and w = ex_filled and tr = tr and w' = w' and p' = p' and best = 3 and sol = "ex_sol 3"]
    s n r pc
  have "best_edge_count p' = least (MAX_REMOVED_EDGES + 1) (loaded tr)" by fastforce
  then have b: "best_edge_count p' = 1"
    by (simp add: tr least_def ex_sol_def MAX_REMOVED_EDGES_def)
  have c: "check_better 3 (ex_sol 3) = (3, [], False)" "fst (check_better 3 (ex_sol 1)) = 1"
    by (simp_all add: check_better_def ex_sol_def)
  from c r tr pc b show ?thesis by blast
qed

subsection \<open>\<^verbatim>\<open>cleanup()\<close> called twice\<close>

lemma sup_run_append:
  "sup_run (s1 @ s2) w p =
     (case sup_run s1 w p of (t1, w1, p1) \<Rightarrow>
        (case sup_run s2 w1 p1 of (t2, w2, p2) \<Rightarrow> (t1 @ t2, w2, p2)))"
  by (induction s1 arbitrary: w p) (auto split: prod.splits option.splits)

lemma sup_step_glob: "sup_step env w p = Some (cs, w1, p1) \<Longrightarrow> glob p1 = glob p"
  by (auto simp: sup_step_def Let_def
      split: sup_pc.splits if_splits option.splits prod.splits list.splits)

lemma run_cleanup_prefix:
  assumes "spc p = S32 h (cs @ ds)" and "exec_seq cs (h, w) = Some (h', w')"
  shows "sup_run (replicate (length cs) (\<lambda>x. x, no_signal)) w p = (cs, w', p\<lparr>spc := S32 h' ds\<rparr>)"
  using assms
proof (induction cs arbitrary: w h p)
  case Nil
  then show ?case by simp
next
  case (Cons c cs)
  from Cons.prems(2) obtain h1 w1 where w1: "exec_call c (h, w) = Some (h1, w1)"
    "exec_seq cs (h1, w1) = Some (h', w')"
    by (auto split: option.splits)
  have st: "sup_step no_signal w p = Some ([c], w1, p\<lparr>spc := S32 h1 (cs @ ds)\<rparr>)"
    using Cons.prems(1) w1(1) by (simp add: sup_step_def no_signal_def)
  have "sup_run (replicate (length cs) (\<lambda>x. x, no_signal)) w1 (p\<lparr>spc := S32 h1 (cs @ ds)\<rparr>) =
      (cs, w', p\<lparr>spc := S32 h1 (cs @ ds), spc := S32 h' ds\<rparr>)"
    using Cons.IH [of "p\<lparr>spc := S32 h1 (cs @ ds)\<rparr>" h1 w1] w1(2) by simp
  with st show ?case by simp
qed

text \<open>A process that has exited or was killed makes no step.\<close>

lemma run_stopped:
  "spc p = S_exit code \<or> spc p = S_crash \<Longrightarrow>
   sup_run (replicate n (\<lambda>x. x, env)) w p = ([], w, p)"
  by (induction n) (auto simp: sup_step_def)

lemma run_cleanup_all:
  assumes "spc p = S32 h cs" and "exec_seq cs (h, w) = Some (h', w')"
  shows "sup_run (replicate (Suc (length cs) + n) (\<lambda>x. x, no_signal)) w p =
           (cs, w', p\<lparr>spc := S_exit EXIT_SUCCESS\<rparr>)"
proof -
  have 1: "sup_run (replicate (length cs) (\<lambda>x. x, no_signal)) w p = (cs, w', p\<lparr>spc := S32 h' []\<rparr>)"
    using run_cleanup_prefix [of p h cs "[]" w h' w'] assms by simp
  have 2: "sup_run [(\<lambda>x. x, no_signal)] w' (p\<lparr>spc := S32 h' []\<rparr>) =
      ([], w', p\<lparr>spc := S_exit EXIT_SUCCESS\<rparr>)"
    by (simp add: sup_step_def no_signal_def)
  have 3: "sup_run (replicate n (\<lambda>x. x, no_signal)) w' (p\<lparr>spc := S_exit EXIT_SUCCESS\<rparr>) =
      ([], w', p\<lparr>spc := S_exit EXIT_SUCCESS\<rparr>)"
    by (rule run_stopped) simp
  have "replicate (Suc (length cs) + n) (\<lambda>x. x, no_signal) =
      replicate (length cs) (\<lambda>x. x, no_signal) @ [(\<lambda>x::world. x, no_signal)] @
      replicate n (\<lambda>x. x, no_signal)"
    by (simp add: replicate_add replicate_append_same)
  then show ?thesis using 1 2 3 by (simp only: sup_run_append) simp
qed

text \<open>The run up to a call that kills the process.\<close>

lemma run_cleanup_fault:
  assumes "spc p = S32 h (cs @ c # ds)" and "exec_seq cs (h, w) = Some (h', w')"
    and "exec_call c (h', w') = None"
  shows "sup_run (replicate (Suc (length cs) + n) (\<lambda>x. x, no_signal)) w p =
           (cs @ [c], w', p\<lparr>spc := S_crash\<rparr>)"
proof -
  have 1: "sup_run (replicate (length cs) (\<lambda>x. x, no_signal)) w p =
      (cs, w', p\<lparr>spc := S32 h' (c # ds)\<rparr>)"
    using run_cleanup_prefix [of p h cs "c # ds" w h' w'] assms by simp
  have 2: "sup_run [(\<lambda>x. x, no_signal)] w' (p\<lparr>spc := S32 h' (c # ds)\<rparr>) =
      ([c], w', p\<lparr>spc := S_crash\<rparr>)"
    using assms(3) by (simp add: sup_step_def no_signal_def)
  have 3: "sup_run (replicate n (\<lambda>x. x, no_signal)) w' (p\<lparr>spc := S_crash\<rparr>) =
      ([], w', p\<lparr>spc := S_crash\<rparr>)"
    by (rule run_stopped) simp
  have "replicate (Suc (length cs) + n) (\<lambda>x. x, no_signal) =
      replicate (length cs) (\<lambda>x. x, no_signal) @ [(\<lambda>x::world. x, no_signal)] @
      replicate n (\<lambda>x. x, no_signal)"
    by (simp add: replicate_add replicate_append_same)
  then show ?thesis using 1 2 3 by (simp only: sup_run_append) simp
qed

text \<open>
  What the process holds after the first \<open>k\<close> calls of \<^verbatim>\<open>cleanup()\<close>: \<^verbatim>\<open>sem_free\<close> up to
  the 21st call (the store and the twenty posts), the mapping up to the 27th.
\<close>

lemma exec_seq_closing:
  assumes "\<forall>c \<in> set cs. (\<forall>q x. c \<noteq> StoreTerminate q x) \<and> (\<forall>x. c \<noteq> SemPost x)"
  shows "\<exists>h'. exec_seq cs (h, w) = Some (h', w) \<and>
           (mapped h' \<longleftrightarrow> mapped h \<and> Munmap \<notin> set cs) \<and>
           (opened h' SEM_FREE \<longleftrightarrow> opened h SEM_FREE \<and> SemClose SEM_FREE \<notin> set cs)"
  using assms
proof (induction cs arbitrary: h)
  case Nil
  show ?case by simp
next
  case (Cons c cs)
  from Cons.prems have c: "\<forall>q x. c \<noteq> StoreTerminate q x" "\<forall>x. c \<noteq> SemPost x"
    by auto
  then obtain h1 where h1: "exec_call c (h, w) = Some (h1, w)"
    "mapped h1 \<longleftrightarrow> mapped h \<and> c \<noteq> Munmap"
    "opened h1 SEM_FREE \<longleftrightarrow> opened h SEM_FREE \<and> c \<noteq> SemClose SEM_FREE"
    by (cases c) auto
  from Cons.prems have "\<forall>c \<in> set cs. (\<forall>q x. c \<noteq> StoreTerminate q x) \<and> (\<forall>x. c \<noteq> SemPost x)"
    by auto
  from Cons.IH [OF this, of h1] h1 show ?case by auto
qed

lemma take_cleanup:
  assumes "acquired g" and "k \<le> 30"
  shows "\<exists>h1 w1. exec_seq (take k (cleanup g)) (all_held, w) = Some (h1, w1) \<and>
           (mapped h1 \<longleftrightarrow> k \<le> 27) \<and> (opened h1 SEM_FREE \<longleftrightarrow> k \<le> 21)"
proof (cases "k \<le> 21")
  case True
  have t: "take k (cleanup g) =
      (if k = 0 then [] else StoreTerminate Mapped 1 # replicate (k - 1) (SemPost SEM_FREE))"
    using True by (cases k) (simp_all add: cleanup_acquired [OF assms(1)] min_def)
  obtain w1 where "exec_seq (StoreTerminate Mapped 1 # replicate (k - 1) (SemPost SEM_FREE))
      (all_held, w) = Some (all_held, w1)"
    using exec_seq_wake [of all_held "k - 1" w] by (auto simp: all_held_def)
  with t True show ?thesis
    by (cases "k = 0") (auto simp: all_held_def)
next
  case False
  let ?wake = "StoreTerminate Mapped 1 # replicate 20 (SemPost SEM_FREE)"
  let ?closing = "[SemClose SEM_FREE, SemUnlink SEM_FREE, SemClose SEM_USED, SemUnlink SEM_USED,
      SemClose SEM_MUTEX, SemUnlink SEM_MUTEX, Munmap, Close, ShmUnlink]"
  have t: "take k (cleanup g) = ?wake @ take (k - 21) ?closing"
    using False by (cases k) (simp_all add: cleanup_acquired [OF assms(1)])
  obtain w1 where w1: "exec_seq ?wake (all_held, w) = Some (all_held, w1)"
    using exec_seq_wake [of all_held 20 w] by (auto simp: all_held_def)
  have "k - 21 = 1 \<or> k - 21 = 2 \<or> k - 21 = 3 \<or> k - 21 = 4 \<or> k - 21 = 5 \<or> k - 21 = 6 \<or>
      k - 21 = 7 \<or> k - 21 = 8 \<or> k - 21 = 9"
    using False assms(2) by arith
  then have m: "Munmap \<notin> set (take (k - 21) ?closing) \<longleftrightarrow> k \<le> 27"
    "SemClose SEM_FREE \<in> set (take (k - 21) ?closing)"
    using False by (auto simp: numeral_eq_Suc)
  have "\<forall>c \<in> set (take (k - 21) ?closing).
      (\<forall>q x. c \<noteq> StoreTerminate q x) \<and> (\<forall>x. c \<noteq> SemPost x)"
    by (auto dest!: in_set_takeD)
  from exec_seq_closing [OF this, of all_held w1]
  obtain h1 where "exec_seq (take (k - 21) ?closing) (all_held, w1) = Some (h1, w1)"
    "mapped h1 \<longleftrightarrow> mapped all_held \<and> Munmap \<notin> set (take (k - 21) ?closing)"
    "opened h1 SEM_FREE \<longleftrightarrow>
       opened all_held SEM_FREE \<and> SemClose SEM_FREE \<notin> set (take (k - 21) ?closing)"
    by blast
  with w1 m False show ?thesis
    by (simp only: t exec_seq_append) (simp add: all_held_def)
qed

text \<open>
  A signal after the first \<open>k\<close> calls of the \<^verbatim>\<open>cleanup()\<close> of the normal exit path: the
  handler's \<^verbatim>\<open>cleanup()\<close> starts from its first line.
\<close>

lemma cleanup_twice_run:
  assumes "spc p = S196" and "acquired (glob p)" and "k \<le> 30"
  shows "\<exists>w'. sup_run (replicate (Suc k) (\<lambda>x. x, no_signal) @ (\<lambda>x. x, a_signal) #
                    replicate 31 (\<lambda>x. x, no_signal)) w p =
              ((if 0 < best_edge_count p \<and> best_edge_count p \<le> MAX_REMOVED_EDGES
                then [Printf (Finished (best_edge_count p))] else [])
               @ take k (cleanup (glob p))
               @ (if k \<le> 21 then cleanup (glob p)
                  else if k \<le> 27 then [StoreTerminate Mapped 1, SemPost SEM_FREE]
                  else [StoreTerminate Mapped 1]),
               w', p\<lparr>spc := (if k \<le> 21 then S_exit EXIT_SUCCESS else S_crash)\<rparr>)"
proof -
  let ?cs = "cleanup (glob p)"
  let ?msgs = "if 0 < best_edge_count p \<and> best_edge_count p \<le> MAX_REMOVED_EDGES
                then [Printf (Finished (best_edge_count p))] else []"
  let ?second = "if k \<le> 21 then ?cs
                  else if k \<le> 27 then [StoreTerminate Mapped 1, SemPost SEM_FREE]
                  else [StoreTerminate Mapped 1]"
  let ?end = "if k \<le> 21 then S_exit EXIT_SUCCESS else S_crash"
  let ?p1 = "p\<lparr>spc := S32 all_held ?cs\<rparr>"
  note c = cleanup_acquired [OF assms(2)]
  have l: "length ?cs = 30" by (simp add: c)
  obtain h1 w1 where w1: "exec_seq (take k ?cs) (all_held, w) = Some (h1, w1)"
    "mapped h1 \<longleftrightarrow> k \<le> 27" "opened h1 SEM_FREE \<longleftrightarrow> k \<le> 21"
    using take_cleanup [OF assms(2,3)] by blast
  let ?p2 = "p\<lparr>spc := S32 h1 ?cs\<rparr>"
  have s0: "sup_run [(\<lambda>x. x, no_signal)] w p = (?msgs, w, ?p1)"
    using assms(1) by (simp add: sup_step_def no_signal_def)
  have s1: "sup_run (replicate k (\<lambda>x. x, no_signal)) w ?p1 =
      (take k ?cs, w1, ?p1\<lparr>spc := S32 h1 (drop k ?cs)\<rparr>)"
    using run_cleanup_prefix [of ?p1 all_held "take k ?cs" "drop k ?cs" w h1 w1] w1(1) assms(3) l
    by simp
  have s2: "sup_run [(\<lambda>x. x, a_signal)] w1 (?p1\<lparr>spc := S32 h1 (drop k ?cs)\<rparr>) = ([], w1, ?p2)"
    by (simp add: sup_step_def a_signal_def)
  have s3: "\<exists>w2. sup_run (replicate 31 (\<lambda>x. x, no_signal)) w1 ?p2 = (?second, w2, ?p2\<lparr>spc := ?end\<rparr>)"
  proof -
    consider "k \<le> 21" | "21 < k" "k \<le> 27" | "27 < k" by linarith
    then show ?thesis
    proof cases
      case 1
      with w1 obtain h2 w2 where "exec_seq ?cs (h1, w1) = Some (h2, w2)"
        using exec_seq_cleanup_acquired [OF assms(2), of h1 w1] by auto
      from run_cleanup_all [of ?p2 h1 ?cs w1 h2 w2 0, OF _ this] 1 l show ?thesis
        by simp
    next
      case 2
      have e: "exec_seq [StoreTerminate Mapped 1] (h1, w1) =
          Some (h1, w1\<lparr>shm := (shm w1)\<lparr>terminate := 1\<rparr>\<rparr>)"
        using w1(2) 2 by simp
      have f: "exec_call (SemPost SEM_FREE) (h1, w1\<lparr>shm := (shm w1)\<lparr>terminate := 1\<rparr>\<rparr>) = None"
        using w1(3) 2 by simp
      have "spc ?p2 = S32 h1 ([StoreTerminate Mapped 1] @ SemPost SEM_FREE #
          (replicate 19 (SemPost SEM_FREE) @
           [SemClose SEM_FREE, SemUnlink SEM_FREE, SemClose SEM_USED, SemUnlink SEM_USED,
            SemClose SEM_MUTEX, SemUnlink SEM_MUTEX, Munmap, Close, ShmUnlink]))"
        by (simp add: c numeral_eq_Suc)
      from run_cleanup_fault [OF this e f, of 29] 2 show ?thesis
        by auto
    next
      case 3
      have e: "exec_seq [] (h1, w1) = Some (h1, w1)" by simp
      have f: "exec_call (StoreTerminate Mapped 1) (h1, w1) = None"
        using w1(2) 3 by simp
      have "spc ?p2 = S32 h1 ([] @ StoreTerminate Mapped 1 #
          (replicate 20 (SemPost SEM_FREE) @
           [SemClose SEM_FREE, SemUnlink SEM_FREE, SemClose SEM_USED, SemUnlink SEM_USED,
            SemClose SEM_MUTEX, SemUnlink SEM_MUTEX, Munmap, Close, ShmUnlink]))"
        by (simp add: c)
      from run_cleanup_fault [OF this e f, of 30] 3 show ?thesis
        by auto
    qed
  qed
  then obtain w2 where s3: "sup_run (replicate 31 (\<lambda>x. x, no_signal)) w1 ?p2 =
      (?second, w2, ?p2\<lparr>spc := ?end\<rparr>)" by blast
  have "replicate (Suc k) (\<lambda>x. x, no_signal) @ (\<lambda>x. x, a_signal) #
          replicate 31 (\<lambda>x. x, no_signal) =
        [(\<lambda>x::world. x, no_signal)] @ replicate k (\<lambda>x. x, no_signal) @ [(\<lambda>x. x, a_signal)] @
          replicate 31 (\<lambda>x. x, no_signal)"
    by simp
  then have "sup_run (replicate (Suc k) (\<lambda>x. x, no_signal) @ (\<lambda>x. x, a_signal) #
                    replicate 31 (\<lambda>x. x, no_signal)) w p =
      (?msgs @ take k ?cs @ ?second, w2, p\<lparr>spc := ?end\<rparr>)"
    using s0 s1 s2 s3 by (simp only: sup_run_append) simp
  then show ?thesis by blast
qed

text \<open>
  C3. \<^verbatim>\<open>cleanup()\<close> looks at no state flag: each of its blocks is guarded by its pointer
  alone, and it assigns none of the pointers. So a second invocation, by the signal
  handler, begins the calls of a whole \<^verbatim>\<open>cleanup()\<close> again after the \<open>k\<close> calls that
  the first invocation, on the normal exit path, had made when the signal arrived. Up to
  \<open>k = 21\<close> (the store and the twenty posts) the second invocation makes all its calls,
  twenty more posts of \<^verbatim>\<open>sem_free\<close> among them, and the process exits with
  \<^verbatim>\<open>EXIT_SUCCESS\<close>. From \<open>k = 22\<close> on \<^verbatim>\<open>sem_free\<close> is closed: the second invocation
  stores \<^verbatim>\<open>terminate\<close> again and its first post of the closed semaphore kills the
  process. From \<open>k = 28\<close> on the segment is unmapped and the store of line 35 kills it.
\<close>

theorem second_cleanup_repeats_or_faults:
  assumes "spc p = S196" and "acquired (glob p)" and "k \<le> 30"
  shows "\<exists>w'. sup_run (replicate (Suc k) (\<lambda>x. x, no_signal) @ (\<lambda>x. x, a_signal) #
                    replicate 31 (\<lambda>x. x, no_signal)) w p =
              ((if 0 < best_edge_count p \<and> best_edge_count p \<le> MAX_REMOVED_EDGES
                then [Printf (Finished (best_edge_count p))] else [])
               @ take k (cleanup (glob p))
               @ (if k \<le> 21 then cleanup (glob p)
                  else if k \<le> 27 then [StoreTerminate Mapped 1, SemPost SEM_FREE]
                  else [StoreTerminate Mapped 1]),
               w', p\<lparr>spc := (if k \<le> 21 then S_exit EXIT_SUCCESS else S_crash)\<rparr>)"
  using assms by (rule cleanup_twice_run)

theorem second_cleanup_repeats_or_faults_witness:
  "spc (ex_supervisor\<lparr>spc := S196\<rparr>) = S196 \<and>
   acquired (glob (ex_supervisor\<lparr>spc := S196\<rparr>)) \<and> (22::nat) \<le> 30 \<and>
   (\<exists>w'. sup_run (replicate 23 (\<lambda>x. x, no_signal) @ (\<lambda>x. x, a_signal) #
                  replicate 31 (\<lambda>x. x, no_signal)) ex_world (ex_supervisor\<lparr>spc := S196\<rparr>) =
            (StoreTerminate Mapped 1 # replicate 20 (SemPost SEM_FREE) @
             [SemClose SEM_FREE, StoreTerminate Mapped 1, SemPost SEM_FREE], w',
             ex_supervisor\<lparr>spc := S_crash\<rparr>))"
proof -
  have a: "acquired ex_globals" by (simp add: acquired_def ex_globals_def)
  note c = cleanup_acquired [OF a]
  have h1: "spc (ex_supervisor\<lparr>spc := S196\<rparr>) = S196" by simp
  have h2: "acquired (glob (ex_supervisor\<lparr>spc := S196\<rparr>))"
    using a by (simp add: ex_supervisor_def)
  have h3: "(22::nat) \<le> 30" by simp
  from second_cleanup_repeats_or_faults [OF h1 h2 h3, of ex_world]
  have "\<exists>w'. sup_run (replicate 23 (\<lambda>x. x, no_signal) @ (\<lambda>x. x, a_signal) #
                  replicate 31 (\<lambda>x. x, no_signal)) ex_world (ex_supervisor\<lparr>spc := S196\<rparr>) =
            (StoreTerminate Mapped 1 # replicate 20 (SemPost SEM_FREE) @
             [SemClose SEM_FREE, StoreTerminate Mapped 1, SemPost SEM_FREE], w',
             ex_supervisor\<lparr>spc := S_crash\<rparr>)"
    by (simp add: ex_supervisor_def c MAX_REMOVED_EDGES_def)
  with h1 h2 h3 show ?thesis by blast
qed

text \<open>
  Two instances. When the signal arrives after the 21st call of the first invocation,
  the handler's invocation posts \<^verbatim>\<open>sem_free\<close> twenty times more, 40 posts in all, and
  makes every unlink and the unmap. When it arrives after the last call, before
  \<^verbatim>\<open>main\<close> returns, the handler's store to \<^verbatim>\<open>terminate\<close> goes into the unmapped region:
  the process is killed and does not exit with \<^verbatim>\<open>EXIT_SUCCESS\<close>.
\<close>

lemma signal_after_posts_posts_again:
  "\<exists>tr w' p'.
     sup_run (replicate 22 (\<lambda>x. x, no_signal) @ (\<lambda>x. x, a_signal) #
              replicate 31 (\<lambda>x. x, no_signal)) ex_world (ex_supervisor\<lparr>spc := S196\<rparr>) = (tr, w', p') \<and>
     spc p' = S_exit EXIT_SUCCESS \<and>
     length (filter (\<lambda>c. c = SemPost SEM_FREE) tr) = 40 \<and>
     length (filter (\<lambda>c. c = StoreTerminate Mapped 1) tr) = 2 \<and>
     length (filter is_unlink tr) = 4 \<and> length (filter (\<lambda>c. c = Munmap) tr) = 1"
proof -
  have a: "acquired ex_globals" by (simp add: acquired_def ex_globals_def)
  note c = cleanup_acquired [OF a]
  have h1: "spc (ex_supervisor\<lparr>spc := S196\<rparr>) = S196" by simp
  have h2: "acquired (glob (ex_supervisor\<lparr>spc := S196\<rparr>))"
    using a by (simp add: ex_supervisor_def)
  have h3: "(21::nat) \<le> 30" by simp
  from cleanup_twice_run [OF h1 h2 h3, of ex_world]
  obtain w' where "sup_run (replicate 22 (\<lambda>x. x, no_signal) @ (\<lambda>x. x, a_signal) #
              replicate 31 (\<lambda>x. x, no_signal)) ex_world (ex_supervisor\<lparr>spc := S196\<rparr>) =
      (take 21 (cleanup ex_globals) @ cleanup ex_globals, w',
       ex_supervisor\<lparr>spc := S_exit EXIT_SUCCESS\<rparr>)"
    by (auto simp: ex_supervisor_def MAX_REMOVED_EDGES_def)
  moreover have "length (filter (\<lambda>c. c = SemPost SEM_FREE) (take 21 (cleanup ex_globals) @ cleanup ex_globals)) = 40"
    "length (filter (\<lambda>c. c = StoreTerminate Mapped 1) (take 21 (cleanup ex_globals) @ cleanup ex_globals)) = 2"
    "length (filter is_unlink (take 21 (cleanup ex_globals) @ cleanup ex_globals)) = 4"
    "length (filter (\<lambda>c. c = Munmap) (take 21 (cleanup ex_globals) @ cleanup ex_globals)) = 1"
    by (simp_all add: c)
  ultimately show ?thesis by simp
qed

lemma signal_after_cleanup_faults:
  "\<exists>w'. sup_run (replicate 31 (\<lambda>x. x, no_signal) @ (\<lambda>x. x, a_signal) #
                 replicate 31 (\<lambda>x. x, no_signal)) ex_world (ex_supervisor\<lparr>spc := S196\<rparr>) =
           (cleanup ex_globals @ [StoreTerminate Mapped 1], w', ex_supervisor\<lparr>spc := S_crash\<rparr>)"
proof -
  have a: "acquired ex_globals" by (simp add: acquired_def ex_globals_def)
  have l: "length (cleanup ex_globals) = 30" by (simp add: cleanup_acquired [OF a])
  have h1: "spc (ex_supervisor\<lparr>spc := S196\<rparr>) = S196" by simp
  have h2: "acquired (glob (ex_supervisor\<lparr>spc := S196\<rparr>))"
    using a by (simp add: ex_supervisor_def)
  have h3: "(30::nat) \<le> 30" by simp
  from cleanup_twice_run [OF h1 h2 h3, of ex_world] show ?thesis
    by (simp add: ex_supervisor_def l MAX_REMOVED_EDGES_def)
qed

subsection \<open>The supervisor's command line\<close>

lemma scan_int_Nil: "scan_int [] = None"
  by (simp add: scan_int_def)

lemma limit_accepted_iff:
  "(case strtol einval s of (x, endptr, errno) \<Rightarrow> \<not> (errno \<noteq> 0 \<or> endptr \<noteq> [] \<or> x \<le> 0)) \<longleftrightarrow>
   (\<exists>n. integer_text s n \<and> 0 < n \<and> n \<le> LONG_MAX)"
  by (cases "scan_int s")
    (auto simp: strtol_def integer_text_def LONG_MAX_def LONG_MIN_def ERANGE_def EINVAL_def
      split: if_splits)

lemma delay_accepted_iff:
  "(case strtol einval s of (x, endptr, errno) \<Rightarrow> \<not> (errno \<noteq> 0 \<or> endptr \<noteq> [] \<or> x < 0)) \<longleftrightarrow>
   (\<exists>n. integer_text s n \<and> 0 \<le> n \<and> n \<le> LONG_MAX) \<or> (\<not> einval \<and> s = [])"
  by (cases "scan_int s")
    (auto simp: strtol_def integer_text_def LONG_MAX_def LONG_MIN_def ERANGE_def EINVAL_def
      scan_int_Nil split: if_splits)

lemma parse_opts_code: "parse_opts einval opts st = Inl code \<Longrightarrow> code = EXIT_FAILURE"
  by (induction einval opts st rule: parse_opts.induct)
    (auto split: if_splits prod.splits)

lemma parse_opts_accepts_iff:
  "(\<exists>st'. parse_opts einval opts st = Inr st') \<longleftrightarrow>
   list_all (\<lambda>(opt, optarg).
      (opt = CHR ''n'' \<and> (\<exists>n. integer_text optarg n \<and> 0 < n \<and> n \<le> LONG_MAX)) \<or>
      (opt = CHR ''w'' \<and>
         ((\<exists>n. integer_text optarg n \<and> 0 \<le> n \<and> n \<le> LONG_MAX) \<or> (\<not> einval \<and> optarg = [])))) opts"
proof (induction einval opts st rule: parse_opts.induct)
  case (1 einval st)
  show ?case by simp
next
  case (2 einval opt optarg rest st)
  obtain x endptr errno where s: "strtol einval optarg = (x, endptr, errno)"
    by (cases "strtol einval optarg")
  note n = limit_accepted_iff [of einval optarg, unfolded s, simplified]
  note d = delay_accepted_iff [of einval optarg, unfolded s, simplified]
  show ?case
  proof (cases "opt = CHR ''n''")
    case True
    show ?thesis
    proof (cases "errno \<noteq> 0 \<or> endptr \<noteq> [] \<or> x \<le> 0")
      case True
      with \<open>opt = CHR ''n''\<close> s n show ?thesis by auto
    next
      case False
      with \<open>opt = CHR ''n''\<close> s n "2.IH"(1) [OF \<open>opt = CHR ''n''\<close> s [symmetric] refl False]
      show ?thesis by auto
    qed
  next
    case nn: False
    show ?thesis
    proof (cases "opt = CHR ''w''")
      case True
      show ?thesis
      proof (cases "errno \<noteq> 0 \<or> endptr \<noteq> [] \<or> x < 0")
        case True
        with \<open>opt = CHR ''w''\<close> nn s d show ?thesis by auto
      next
        case False
        with \<open>opt = CHR ''w''\<close> nn s d "2.IH"(2) [OF nn \<open>opt = CHR ''w''\<close> s [symmetric] refl False]
        show ?thesis by auto
      qed
    next
      case False
      with nn show ?thesis by simp
    qed
  qed
qed


text \<open>
  What of C8 holds. The start fails with \<^verbatim>\<open>EXIT_FAILURE\<close>, before any call that creates
  a shared object, unless every option is \<^verbatim>\<open>-n\<close> with the text of an integer from 1 to
  \<^verbatim>\<open>LONG_MAX\<close> or \<^verbatim>\<open>-w\<close> with the text of an integer from 0 to \<^verbatim>\<open>LONG_MAX\<close>, nothing
  following the number; but where \<^verbatim>\<open>strtol\<close> leaves \<^verbatim>\<open>errno\<close> alone when it finds no
  digit, the empty text passes as a delay too.
\<close>

lemma startup_rejects_invalid:
  assumes "\<not> list_all (\<lambda>(opt, optarg).
      (opt = CHR ''n'' \<and> (\<exists>n. integer_text optarg n \<and> 0 < n \<and> n \<le> LONG_MAX)) \<or>
      (opt = CHR ''w'' \<and>
         ((\<exists>n. integer_text optarg n \<and> 0 \<le> n \<and> n \<le> LONG_MAX) \<or> (\<not> einval \<and> optarg = [])))) opts"
  shows "supervisor_startup einval opts os = ([], Exit EXIT_FAILURE) \<and> EXIT_FAILURE \<noteq> 0"
proof -
  from assms parse_opts_accepts_iff [of einval opts "\<lparr>limit = INT_MAX, delay = 0\<rparr>"]
  obtain code where "parse_opts einval opts \<lparr>limit = INT_MAX, delay = 0\<rparr> = Inl code"
    by (cases "parse_opts einval opts \<lparr>limit = INT_MAX, delay = 0\<rparr>") auto
  moreover from this have "code = EXIT_FAILURE" by (rule parse_opts_code)
  ultimately show ?thesis by (simp add: supervisor_startup_def EXIT_FAILURE_def)
qed

text \<open>
  C8 at the input \<^verbatim>\<open>supervisor -w ""\<close>, with a \<^verbatim>\<open>strtol\<close> that does not set \<^verbatim>\<open>errno\<close>
  when no conversion is made: the empty text is not the text of an integer, yet the
  start goes on, creates the segment and the semaphores, and serves with a delay of 0.
\<close>

theorem empty_delay_accepted:
  "scan_int [] = None \<and>
   strtol False [] = (0, [], 0) \<and>
   supervisor_startup False [(CHR ''w'', [])] ex_os =
     ([ShmOpen, Ftruncate, Mmap, StoreTerminate Mapped 0, StoreWriteIndex 0, StoreReadIndex 0,
       SemOpen SEM_FREE 20, SemOpen SEM_USED 0, SemOpen SEM_MUTEX 1, Printf Initialized],
      Serving \<lparr>spc = S167, conf = \<lparr>limit = INT_MAX, delay = 0\<rparr>, solutions_read = 0,
               best_edge_count = 9, glob = ex_globals\<rparr>)"
  by (simp add: scan_int_def strtol_def supervisor_startup_def ex_os_def ex_globals_def
      int_of_long_def BUFFER_SIZE_def MAX_REMOVED_EDGES_def)

theorem empty_delay_accepted_witness:
  "\<exists>cs p. supervisor_startup False [(CHR ''w'', [])] ex_os = (cs, Serving p) \<and>
          delay (conf p) = 0 \<and> ShmOpen \<in> set cs"
  using empty_delay_accepted by simp

lemma empty_limit_rejected:
  "supervisor_startup einval [(CHR ''n'', [])] os = ([], Exit EXIT_FAILURE)"
  by (simp add: scan_int_def strtol_def supervisor_startup_def)

subsection \<open>The invariant of the processes together\<close>

lemma tally_update:
  "i < length ps \<Longrightarrow> tally f (ps[i := p']) + f (gpc (ps ! i)) = tally f ps + f (gpc p')"
proof (induction ps arbitrary: i)
  case Nil
  then show ?case by simp
next
  case (Cons a ps)
  show ?case
  proof (cases i)
    case 0
    then show ?thesis by (simp add: tally_def)
  next
    case (Suc j)
    with Cons.prems have "j < length ps" by simp
    from Cons.IH [OF this] Suc show ?thesis by (simp add: tally_def)
  qed
qed

lemma tally_elem: "j < length ps \<Longrightarrow> f (gpc (ps ! j)) \<le> tally f ps"
  unfolding tally_def
  by (rule member_le_sum_list) (auto simp: in_set_conv_nth intro!: image_eqI [where x = "ps ! j"])

lemma sum_list_two:
  fixes xs :: "nat list"
  shows "i < length xs \<Longrightarrow> j < length xs \<Longrightarrow> i \<noteq> j \<Longrightarrow> xs ! i + xs ! j \<le> sum_list xs"
proof (induction xs arbitrary: i j)
  case Nil
  then show ?case by simp
next
  case (Cons a xs)
  show ?case
  proof (cases i)
    case 0
    with Cons.prems obtain j' where j: "j = Suc j'" "j' < length xs" by (cases j) auto
    then have "xs ! j' \<le> sum_list xs" by (simp add: member_le_sum_list)
    with 0 j show ?thesis by simp
  next
    case (Suc i')
    show ?thesis
    proof (cases j)
      case 0
      from Suc Cons.prems have "xs ! i' \<le> sum_list xs" by (simp add: member_le_sum_list)
      with 0 Suc show ?thesis by simp
    next
      case (Suc j')
      with \<open>i = Suc i'\<close> Cons.prems have "xs ! i' + xs ! j' \<le> sum_list xs"
        by (intro Cons.IH) simp_all
      with Suc \<open>i = Suc i'\<close> show ?thesis by simp
    qed
  qed
qed

lemma tally_two:
  assumes "i < length ps" "j < length ps" "i \<noteq> j"
  shows "f (gpc (ps ! i)) + f (gpc (ps ! j)) \<le> tally f ps"
  using sum_list_two [of i "map (\<lambda>p. f (gpc p)) ps" j] assms
  by (simp add: tally_def)

lemma c_rem_nonneg': "0 \<le> a \<Longrightarrow> c_rem a BUFFER_SIZE = a mod BUFFER_SIZE"
  by (cases "a = 0") (simp_all add: c_rem_def BUFFER_SIZE_def)

lemma verify_edges_count:
  "verify_edges cols es sol = Inr (sol', ok) \<Longrightarrow> valid_solution sol \<Longrightarrow>
   valid_solution sol' \<and>
   (ok \<longleftrightarrow> edge_count sol + int (length (conflicts cols es)) \<le> MAX_REMOVED_EDGES) \<and>
   (ok \<longrightarrow> edge_count sol' = edge_count sol + int (length (conflicts cols es)))"
proof (induction es arbitrary: sol)
  case Nil
  then show ?case by (auto simp: conflicts_def valid_solution_def)
next
  case (Cons e es)
  show ?case
  proof (cases "cols ! nat (u e) = cols ! nat (v e)")
    case True
    show ?thesis
    proof (cases "edge_count sol < MAX_REMOVED_EDGES")
      case lt: True
      let ?s = "sol\<lparr>edges := (edges sol)[nat (edge_count sol) := e], edge_count := edge_count sol + 1\<rparr>"
      from Cons.prems True lt have r: "verify_edges cols es ?s = Inr (sol', ok)"
        by (simp split: if_splits)
      have "valid_solution ?s" using Cons.prems(2) lt by (simp add: valid_solution_def)
      from Cons.IH [OF r this] True show ?thesis by (simp add: conflicts_def add.assoc)
    next
      case False
      with Cons.prems True show ?thesis
        by (auto simp: conflicts_def valid_solution_def split: if_splits)
    qed
  next
    case False
    with Cons.prems have r: "verify_edges cols es sol = Inr (sol', ok)"
      by (simp split: if_splits)
    from Cons.IH [OF r Cons.prems(2)] False show ?thesis by (simp add: conflicts_def)
  qed
qed

lemma candidate_valid:
  assumes "candidate g rd cols junk = Inr (cols', sol, ok)"
  shows "valid_solution sol \<and>
         (ok \<longleftrightarrow> int (length (conflicts cols' (take (nat (num_edges g)) (graph_edges g)))) \<le> MAX_REMOVED_EDGES) \<and>
         (ok \<longrightarrow> edge_count sol = int (length (conflicts cols' (take (nat (num_edges g)) (graph_edges g)))))"
proof -
  from assms have v: "verify_edges cols' (take (nat (num_edges g)) (graph_edges g))
      \<lparr>edge_count = 0, edges = map junk [0 ..< nat MAX_REMOVED_EDGES]\<rparr> = Inr (sol, ok)"
    by (auto simp: candidate_def split: sum.splits)
  have "valid_solution \<lparr>edge_count = 0, edges = map junk [0 ..< nat MAX_REMOVED_EDGES]\<rparr>"
    by (simp add: valid_solution_def MAX_REMOVED_EDGES_def)
  from verify_edges_count [OF v this] show ?thesis by simp
qed


lemma invD:
  assumes "inv s"
  shows "0 \<le> read_index (shm (wld s))" "read_index (shm (wld s)) < BUFFER_SIZE"
    "0 \<le> write_index (shm (wld s))" "write_index (shm (wld s)) < BUFFER_SIZE"
    "length (buffer (shm (wld s))) = nat BUFFER_SIZE"
    "sem (wld s) SEM_MUTEX + tally in_critical (gens s) = 1"
    "in_loop (spc (supv s)) \<Longrightarrow>
       write_index (shm (wld s)) = (read_index (shm (wld s)) + int (pending s)) mod BUFFER_SIZE"
    "\<And>k. in_loop (spc (supv s)) \<Longrightarrow> k < pending s \<Longrightarrow> valid_solution
          (buffer (shm (wld s)) ! nat ((read_index (shm (wld s)) + int k) mod BUFFER_SIZE))"
    "\<And>j. j < length (gens s) \<Longrightarrow> gen_ok (wld s) (gpc (gens s ! j))"
    "sup_ok (spc (supv s))"
    "shm_ptr (glob (supv s)) = Mapped"
    "serving (spc (supv s)) \<Longrightarrow> terminate (shm (wld s)) = 0"
    "serving (spc (supv s)) \<Longrightarrow>
       sem (wld s) SEM_FREE + sem (wld s) SEM_USED + tally holds_slot (gens s) +
          sup_holds (spc (supv s)) = nat BUFFER_SIZE"
    "in_loop (spc (supv s)) \<Longrightarrow> 0 < best_edge_count (supv s)"
  using assms unfolding inv_def by blast+

text \<open>What one step of a producer does to the counts.\<close>

lemma gen_step_effect:
  assumes "gen_step env w q = Some (cs, w', q')" and "gen_ok w (gpc q)"
    and "0 \<le> write_index (shm w)" "write_index (shm w) < BUFFER_SIZE"
  shows "sem w' SEM_MUTEX + in_critical (gpc q') = sem w SEM_MUTEX + in_critical (gpc q)"
    and "sem w' SEM_USED + unposted (gpc q') + (if \<exists>idx. gpc q = G120 idx then 0 else 1)
           = sem w SEM_USED + unposted (gpc q) + 1"
    and "terminate (shm w) = 0 \<Longrightarrow>
           sem w' SEM_FREE + sem w' SEM_USED + holds_slot (gpc q')
             = sem w SEM_FREE + sem w SEM_USED + holds_slot (gpc q)"
    and "terminate (shm w') = terminate (shm w)" "read_index (shm w') = read_index (shm w)"
    and "length (buffer (shm w')) = length (buffer (shm w))"
  using assms
  by (auto simp: gen_step_def sem_wait_def sem_post_def
      split: gen_pc.splits if_splits sum.splits option.splits prod.splits)


lemma gen_ok_shm: "shm w' = shm w \<Longrightarrow> gen_ok w' pc = gen_ok w pc"
  by (cases pc) simp_all

lemma gen_ok_outside: "in_critical pc = 0 \<Longrightarrow> gen_ok w' pc = gen_ok w pc"
  by (cases pc) simp_all

text \<open>What one step of a producer does to the region.\<close>

lemma gen_step_region:
  assumes "gen_step env w q = Some (cs, w', q')" and "gen_ok w (gpc q)"
    and "0 \<le> write_index (shm w)" "write_index (shm w) < BUFFER_SIZE"
    and "length (buffer (shm w)) = nat BUFFER_SIZE"
  shows "gen_ok w' (gpc q')"
    and "(\<exists>sol idx. gpc q = G119 sol idx \<and> valid_solution sol \<and>
            shm w' = (shm w)\<lparr>buffer := (buffer (shm w))[nat idx := sol]\<rparr>) \<or>
         (\<exists>idx. gpc q = G120 idx \<and> idx = write_index (shm w) \<and>
            valid_solution (buffer (shm w) ! nat idx) \<and>
            shm w' = (shm w)\<lparr>write_index := (idx + 1) mod BUFFER_SIZE\<rparr>) \<or>
         (in_critical (gpc q) = 0 \<or> (\<exists>sol. gpc q = G118 sol) \<or> gpc q = G122) \<and> shm w' = shm w"
proof -
  show "gen_ok w' (gpc q')"
    using assms
    by (auto simp: gen_step_def sem_wait_def sem_post_def dest: candidate_valid
        split: gen_pc.splits if_splits sum.splits option.splits prod.splits)
  show "(\<exists>sol idx. gpc q = G119 sol idx \<and> valid_solution sol \<and>
            shm w' = (shm w)\<lparr>buffer := (buffer (shm w))[nat idx := sol]\<rparr>) \<or>
         (\<exists>idx. gpc q = G120 idx \<and> idx = write_index (shm w) \<and>
            valid_solution (buffer (shm w) ! nat idx) \<and>
            shm w' = (shm w)\<lparr>write_index := (idx + 1) mod BUFFER_SIZE\<rparr>) \<or>
         (in_critical (gpc q) = 0 \<or> (\<exists>sol. gpc q = G118 sol) \<or> gpc q = G122) \<and> shm w' = shm w"
    using assms
    by (auto simp: gen_step_def sem_wait_def sem_post_def c_rem_nonneg'
        split: gen_pc.splits if_splits sum.splits option.splits prod.splits)
qed


lemma inv_gen_step:
  assumes I: "inv s" and i: "i < length (gens s)"
    and st: "gen_step env (wld s) (gens s ! i) = Some (cs, w', q')"
  shows "inv (s\<lparr>wld := w', gens := (gens s)[i := q']\<rparr>)"
proof -
  let ?w = "wld s" and ?ps = "gens s" and ?q = "gens s ! i"
  let ?s' = "s\<lparr>wld := w', gens := (gens s)[i := q']\<rparr>"
  note D = invD [OF I]
  note ok = D(9) [OF i]
  note E = gen_step_effect [OF st ok D(3,4)]
  note R = gen_step_region [OF st ok D(3,4,5)]
  note U = tally_update [OF i, of _ q']
  have pend: "pending ?s' + (if \<exists>idx. gpc ?q = G120 idx then 0 else 1) = pending s + 1"
    using E(2) U [of unposted] by (simp add: pending_def)
  have others: "gen_ok w' (gpc (?ps ! j))" if j: "j < length ?ps" "j \<noteq> i" for j
  proof (cases "in_critical (gpc ?q) = 0")
    case True
    with R(2) have "shm w' = shm ?w" by auto
    with D(9) [OF j(1)] gen_ok_shm [of w' ?w "gpc (?ps ! j)"] show ?thesis by simp
  next
    case False
    then have "in_critical (gpc ?q) = 1" by (cases "gpc ?q") simp_all
    moreover have "in_critical (gpc ?q) + in_critical (gpc (?ps ! j)) \<le> tally in_critical ?ps"
      using i j by (intro tally_two) auto
    ultimately have "in_critical (gpc (?ps ! j)) = 0" using D(6) by simp
    with D(9) [OF j(1)] gen_ok_outside [of "gpc (?ps ! j)" w' ?w] show ?thesis by simp
  qed
  have loc: "gen_ok w' (gpc (?ps[i := q'] ! j))" if "j < length ?ps" for j
    using that others R(1) i by (cases "j = i") simp_all
  have idx: "0 \<le> write_index (shm w') \<and> write_index (shm w') < BUFFER_SIZE"
    using R(2) D(3,4) by (auto simp: BUFFER_SIZE_def)
  have len: "length (buffer (shm w')) = nat BUFFER_SIZE"
    using E(6) D(5) by simp
  have win: "write_index (shm w') = (read_index (shm w') + int (pending ?s')) mod BUFFER_SIZE"
    if L: "in_loop (spc (supv s))"
  proof (cases "\<exists>idx. gpc ?q = G120 idx")
    case True
    with pend have p: "pending ?s' = pending s + 1" by simp
    from True R(2) have "write_index (shm w') = (write_index (shm ?w) + 1) mod BUFFER_SIZE"
      by auto
    also have "\<dots> = (read_index (shm ?w) + int (pending s) + 1) mod BUFFER_SIZE"
      using D(7) [OF L] by (simp add: mod_add_left_eq)
    finally show ?thesis using p E(5) by (simp add: add.commute add.left_commute)
  next
    case False
    with pend have p: "pending ?s' = pending s" by simp
    from False R(2) have "write_index (shm w') = write_index (shm ?w)" by auto
    with p E(5) D(7) [OF L] show ?thesis by simp
  qed
  have val: "valid_solution (buffer (shm w') ! nat ((read_index (shm w') + int k) mod BUFFER_SIZE))"
    if L: "in_loop (spc (supv s))" and k: "k < pending ?s'" for k
  proof -
    let ?m = "nat ((read_index (shm ?w) + int k) mod BUFFER_SIZE)"
    have m: "?m < length (buffer (shm ?w))"
      using D(5) by (simp add: BUFFER_SIZE_def nat_less_iff)
    have ng: "\<not> (\<exists>idx. gpc ?q = G120 idx)"
      if "in_critical (gpc ?q) = 0 \<or> (\<exists>sol. gpc ?q = G118 sol) \<or> gpc ?q = G122"
      using that by (cases "gpc ?q") auto
    from R(2) consider
        (store) sol idx where "gpc ?q = G119 sol idx" "valid_solution sol"
          "shm w' = (shm ?w)\<lparr>buffer := (buffer (shm ?w))[nat idx := sol]\<rparr>"
      | (advance) idx where "gpc ?q = G120 idx" "idx = write_index (shm ?w)"
          "valid_solution (buffer (shm ?w) ! nat idx)"
          "shm w' = (shm ?w)\<lparr>write_index := (idx + 1) mod BUFFER_SIZE\<rparr>"
      | (same) "\<not> (\<exists>idx. gpc ?q = G120 idx)" "shm w' = shm ?w"
      using ng by blast
    then show ?thesis
    proof cases
      case store
      with pend k have "k < pending s" by simp
      from D(8) [OF L this] store m show ?thesis
        by (cases "?m = nat idx") (simp_all add: nth_list_update)
    next
      case advance
      with pend k have "k < pending s \<or> k = pending s" by auto
      then show ?thesis
      proof
        assume "k < pending s"
        from D(8) [OF L this] advance show ?thesis by simp
      next
        assume "k = pending s"
        with advance D(7) [OF L] show ?thesis by simp
      qed
    next
      case same
      with pend k have "k < pending s" by simp
      from D(8) [OF L this] same show ?thesis by simp
    qed
  qed
  have mx: "sem w' SEM_MUTEX + tally in_critical (?ps[i := q']) = 1"
    using E(1) U [of in_critical] D(6) by simp
  have sv: "terminate (shm w') = 0 \<and>
      sem w' SEM_FREE + sem w' SEM_USED + tally holds_slot (?ps[i := q']) +
        sup_holds (spc (supv s)) = nat BUFFER_SIZE"
    if "serving (spc (supv s))"
    using E(3) [OF D(12) [OF that]] E(4) D(12) [OF that] D(13) [OF that] U [of holds_slot]
    by simp
  show ?thesis
    unfolding inv_def
    using idx len win val loc mx sv D(1,2,10,11,14) E(5)
    by simp
qed


lemma cleanup_calls_ok: "shm_ptr g \<noteq> MAP_FAILED \<Longrightarrow> list_all cleanup_call (cleanup g)"
  by (cases "shm_ptr g") (auto simp: cleanup_def list_all_iff)

lemma c_rem_20: "0 \<le> a \<Longrightarrow> c_rem a 20 = a mod 20"
  by (cases "a = 0") (simp_all add: c_rem_def)

lemma exec_cleanup_call:
  "cleanup_call c \<Longrightarrow> exec_call c (h, w) = Some (h', w') \<Longrightarrow>
   write_index (shm w') = write_index (shm w) \<and>
   read_index (shm w') = read_index (shm w) \<and> buffer (shm w') = buffer (shm w) \<and>
   sem w' SEM_MUTEX = sem w SEM_MUTEX \<and> sem w' SEM_USED = sem w SEM_USED"
  by (cases c) (auto split: if_splits)

text \<open>What one step of the supervisor does.\<close>

lemma sup_step_effect:
  assumes "sup_step env w p = Some (cs, w', p')" and "sup_ok (spc p)"
    and "shm_ptr (glob p) = Mapped"
    and "0 \<le> read_index (shm w)" "read_index (shm w) < BUFFER_SIZE"
  shows "write_index (shm w') = write_index (shm w)" "buffer (shm w') = buffer (shm w)"
    and "sem w' SEM_MUTEX = sem w SEM_MUTEX" "glob p' = glob p"
    and "0 \<le> read_index (shm w') \<and> read_index (shm w') < BUFFER_SIZE"
    and "\<And>h rest. spc p' = S32 h rest \<Longrightarrow> list_all cleanup_call rest"
    and "serving (spc p') \<Longrightarrow>
           serving (spc p) \<and> terminate (shm w') = terminate (shm w) \<and>
           sem w' SEM_FREE + sem w' SEM_USED + sup_holds (spc p')
             = sem w SEM_FREE + sem w SEM_USED + sup_holds (spc p)"
    and "in_loop (spc p') \<Longrightarrow>
           in_loop (spc p) \<and>
           sem w' SEM_USED + sup_unread (spc p') + (if spc p = S176 then 1 else 0)
             = sem w SEM_USED + sup_unread (spc p) \<and>
           read_index (shm w') =
             (if spc p = S176 then (read_index (shm w) + 1) mod BUFFER_SIZE
              else read_index (shm w))"
    and "\<And>sol. spc p' = S181 sol \<Longrightarrow>
           spc p = S176 \<and> sol = buffer (shm w) ! nat (read_index (shm w))"
    and "\<And>sol. spc p' = S185 sol \<Longrightarrow> spc p = S181 sol"
    and "in_loop (spc p') \<Longrightarrow> 0 < best_edge_count p \<Longrightarrow> 0 < best_edge_count p'"
proof -
  note defs = sup_step_def sem_wait_def sem_post_def Let_def check_better_def
    c_rem_nonneg' valid_solution_def
  note splits = sup_pc.splits if_splits option.splits prod.splits list.splits
  have cl: "list_all cleanup_call (cleanup (glob p))"
    using assms(3) by (intro cleanup_calls_ok) simp
  have ex: "write_index (shm w1) = write_index (shm w) \<and>
        read_index (shm w1) = read_index (shm w) \<and> buffer (shm w1) = buffer (shm w) \<and>
        sem w1 SEM_MUTEX = sem w SEM_MUTEX \<and> sem w1 SEM_USED = sem w SEM_USED"
    if "spc p = S32 h (c # rest)" "exec_call c (h, w) = Some (h1, w1)" for h c rest h1 w1
    using that assms(2) exec_cleanup_call [of c h w h1 w1] by simp
  show "write_index (shm w') = write_index (shm w)" "buffer (shm w') = buffer (shm w)"
    "sem w' SEM_MUTEX = sem w SEM_MUTEX" "glob p' = glob p"
    "0 \<le> read_index (shm w') \<and> read_index (shm w') < BUFFER_SIZE"
    using assms(1,4,5) ex by (auto simp: defs BUFFER_SIZE_def c_rem_20 split: splits)
  show "list_all cleanup_call rest" if "spc p' = S32 h rest" for h rest
    using assms(1,2) cl that by (auto simp: defs split: splits)
  show "serving (spc p') \<Longrightarrow>
           serving (spc p) \<and> terminate (shm w') = terminate (shm w) \<and>
           sem w' SEM_FREE + sem w' SEM_USED + sup_holds (spc p')
             = sem w SEM_FREE + sem w SEM_USED + sup_holds (spc p)"
    using assms(1) by (auto simp: defs split: splits)
  show "in_loop (spc p') \<Longrightarrow>
           in_loop (spc p) \<and>
           sem w' SEM_USED + sup_unread (spc p') + (if spc p = S176 then 1 else 0)
             = sem w SEM_USED + sup_unread (spc p) \<and>
           read_index (shm w') =
             (if spc p = S176 then (read_index (shm w) + 1) mod BUFFER_SIZE
              else read_index (shm w))"
    using assms(1,4,5) by (auto simp: defs split: splits)
  show "spc p = S176 \<and> sol = buffer (shm w) ! nat (read_index (shm w))" if "spc p' = S181 sol" for sol
    using assms(1) that by (auto simp: defs split: splits)
  show "spc p = S181 sol" if "spc p' = S185 sol" for sol
    using assms(1) that by (auto simp: defs split: splits)
  show "in_loop (spc p') \<Longrightarrow> 0 < best_edge_count p \<Longrightarrow> 0 < best_edge_count p'"
    using assms(1,2) by (auto simp: defs split: splits)
qed


lemma gen_ok_region:
  "write_index (shm w') = write_index (shm w) \<Longrightarrow> buffer (shm w') = buffer (shm w) \<Longrightarrow>
   gen_ok w' pc = gen_ok w pc"
  by (cases pc) simp_all

lemma inv_sup_step:
  assumes I: "inv s" and st: "sup_step env (wld s) (supv s) = Some (cs, w', p')"
  shows "inv (s\<lparr>wld := w', supv := p'\<rparr>)"
proof -
  let ?w = "wld s" and ?p = "supv s"
  let ?s' = "s\<lparr>wld := w', supv := p'\<rparr>"
  note D = invD [OF I]
  note E = sup_step_effect [OF st D(10,11,1,2)]
  have loc: "gen_ok w' (gpc (gens s ! j))" if "j < length (gens s)" for j
    using D(9) [OF that] gen_ok_region [OF E(1,2)] by simp
  have pend: "pending ?s' + (if spc ?p = S176 then 1 else 0) = pending s"
    and ri: "read_index (shm w') =
             (if spc ?p = S176 then (read_index (shm ?w) + 1) mod BUFFER_SIZE
              else read_index (shm ?w))"
    and L: "in_loop (spc ?p)"
    if "in_loop (spc p')"
    using E(8) [OF that] by (simp_all add: pending_def)
  have so: "sup_ok (spc p')"
  proof (cases "spc p'")
    case (S181 sol)
    from E(9) [OF S181] have a: "spc ?p = S176" "sol = buffer (shm ?w) ! nat (read_index (shm ?w))"
      by simp_all
    then have "0 < pending s" by (simp add: pending_def)
    from D(8) [OF _ this] a D(1,2) S181 show ?thesis by (simp add: BUFFER_SIZE_def)
  next
    case (S185 sol)
    from E(10) [OF S185] D(10) S185 show ?thesis by simp
  next
    case (S32 h rest)
    from E(6) [OF S32] S32 show ?thesis by simp
  qed simp_all
  have win: "write_index (shm w') = (read_index (shm w') + int (pending ?s')) mod BUFFER_SIZE"
    if l: "in_loop (spc p')"
  proof (cases "spc ?p = S176")
    case True
    with pend [OF l] have p: "pending s = pending ?s' + 1" by simp
    have "write_index (shm w') = (read_index (shm ?w) + int (pending s)) mod BUFFER_SIZE"
      using E(1) D(7) [OF L [OF l]] by simp
    also have "\<dots> = ((read_index (shm ?w) + 1) mod BUFFER_SIZE + int (pending ?s')) mod BUFFER_SIZE"
      by (simp add: p mod_add_left_eq ac_simps)
    finally show ?thesis using ri [OF l] True by simp
  next
    case False
    with pend [OF l] ri [OF l] E(1) D(7) [OF L [OF l]] show ?thesis by simp
  qed
  have val: "valid_solution (buffer (shm w') ! nat ((read_index (shm w') + int k) mod BUFFER_SIZE))"
    if l: "in_loop (spc p')" and k: "k < pending ?s'" for k
  proof (cases "spc ?p = S176")
    case True
    with pend [OF l] k have "Suc k < pending s" by simp
    from D(8) [OF L [OF l] this]
    have "valid_solution (buffer (shm ?w) ! nat ((read_index (shm ?w) + (1 + int k)) mod BUFFER_SIZE))"
      by (simp add: ac_simps)
    moreover have "((read_index (shm ?w) + 1) mod BUFFER_SIZE + int k) mod BUFFER_SIZE
        = (read_index (shm ?w) + (1 + int k)) mod BUFFER_SIZE"
      by (simp only: mod_add_left_eq add.assoc)
    ultimately show ?thesis using ri [OF l] True E(2) by simp
  next
    case False
    with pend [OF l] k have "k < pending s" by simp
    from D(8) [OF L [OF l] this] False ri [OF l] E(2) show ?thesis by simp
  qed
  have sv: "terminate (shm w') = 0 \<and>
      sem w' SEM_FREE + sem w' SEM_USED + tally holds_slot (gens s) + sup_holds (spc p')
        = nat BUFFER_SIZE"
    if "serving (spc p')"
  proof -
    from E(7) [OF that] have a: "serving (spc ?p)" "terminate (shm w') = terminate (shm ?w)"
      "sem w' SEM_FREE + sem w' SEM_USED + sup_holds (spc p')
             = sem ?w SEM_FREE + sem ?w SEM_USED + sup_holds (spc ?p)" by simp_all
    from D(12) [OF a(1)] D(13) [OF a(1)] a(2,3) show ?thesis by simp
  qed
  have best: "0 < best_edge_count p'" if l: "in_loop (spc p')"
    using E(11) [OF l D(14) [OF L [OF l]]] .
  show ?thesis
    unfolding inv_def
    using E(1,2,3,4,5) D(3,4,5,6,11) loc so win val sv best
    by simp
qed


lemma inv_initial: "initial s \<Longrightarrow> inv s"
proof -
  assume a: "initial s"
  then obtain slots where s: "length slots = nat BUFFER_SIZE" "wld s = init_world slots"
    and g: "list_all (\<lambda>p. gpc p = G82) (gens s)" and p: "serving_start (supv s)"
    by (auto simp: initial_def)
  have t: "tally f (gens s) = 0" if "f G82 = 0" for f
    using g that by (simp add: tally_def list_all_iff)
  have l: "gen_ok (wld s) (gpc (gens s ! j))" if "j < length (gens s)" for j
    using g that by (simp add: list_all_length)
  show ?thesis
    unfolding inv_def
    using s p t [of in_critical] t [of holds_slot] t [of unposted] l
    by (simp add: init_world_def serving_start_def pending_def BUFFER_SIZE_def
        MAX_REMOVED_EDGES_def)
qed

lemma reach_inv: "reach s \<Longrightarrow> inv s"
proof (induction rule: reach.induct)
  case (reach_initial s)
  then show ?case by (rule inv_initial)
next
  case (reach_step s s')
  from reach_step.hyps(2) reach_step.IH show ?case
    by (cases rule: step.cases) (auto intro: inv_gen_step inv_sup_step)
qed


subsection \<open>Paths of the system and the claims on it\<close>

text \<open>A run of one process, the others standing still, is a path of the system.\<close>

lemma reach_gen_run:
  assumes "reach s" and "i < length (gens s)"
    and "gen_run (map (Pair (\<lambda>x. x)) envs) (wld s) (gens s ! i) = (tr, w', q')"
  shows "reach (s\<lparr>wld := w', gens := (gens s)[i := q']\<rparr>)"
  using assms
proof (induction envs arbitrary: s tr)
  case Nil
  then show ?case by auto
next
  case (Cons env envs)
  show ?case
  proof (cases "gen_step env (wld s) (gens s ! i)")
    case None
    with Cons.prems(3) have "gen_run (map (Pair (\<lambda>x. x)) envs) (wld s) (gens s ! i) = (tr, w', q')"
      by simp
    from Cons.IH [OF Cons.prems(1,2) this] show ?thesis .
  next
    case (Some r)
    obtain cs w1 q1 where r: "r = (cs, w1, q1)" by (cases r)
    let ?s1 = "s\<lparr>wld := w1, gens := (gens s)[i := q1]\<rparr>"
    have 1: "reach ?s1"
      using Cons.prems(1,2) Some r by (blast intro: reach_step gen_steps)
    obtain tr1 where "gen_run (map (Pair (\<lambda>x. x)) envs) w1 q1 = (tr1, w', q')"
      using Cons.prems(3) Some r by (auto split: prod.splits)
    then have 2: "gen_run (map (Pair (\<lambda>x. x)) envs) (wld ?s1) (gens ?s1 ! i) = (tr1, w', q')"
      using Cons.prems(2) by simp
    have 3: "i < length (gens ?s1)" using Cons.prems(2) by simp
    from Cons.IH [OF 1 3 2] show ?thesis by simp
  qed
qed

lemma reach_sup_run:
  assumes "reach s"
    and "sup_run (map (Pair (\<lambda>x. x)) envs) (wld s) (supv s) = (tr, w', p')"
  shows "reach (s\<lparr>wld := w', supv := p'\<rparr>)"
  using assms
proof (induction envs arbitrary: s tr)
  case Nil
  then show ?case by auto
next
  case (Cons env envs)
  show ?case
  proof (cases "sup_step env (wld s) (supv s)")
    case None
    with Cons.prems(2) have "sup_run (map (Pair (\<lambda>x. x)) envs) (wld s) (supv s) = (tr, w', p')"
      by simp
    from Cons.IH [OF Cons.prems(1) this] show ?thesis .
  next
    case (Some r)
    obtain cs w1 p1 where r: "r = (cs, w1, p1)" by (cases r)
    let ?s1 = "s\<lparr>wld := w1, supv := p1\<rparr>"
    have 1: "reach ?s1"
      using Cons.prems(1) Some r by (blast intro: reach_step sup_steps)
    obtain tr1 where "sup_run (map (Pair (\<lambda>x. x)) envs) w1 p1 = (tr1, w', p')"
      using Cons.prems(2) Some r by (auto split: prod.splits)
    then have 2: "sup_run (map (Pair (\<lambda>x. x)) envs) (wld ?s1) (supv ?s1) = (tr1, w', p')"
      by simp
    from Cons.IH [OF 1 2] show ?thesis by simp
  qed
qed

lemma reach_ex_sys: "reach ex_sys"
proof (rule reach_initial)
  have "length (replicate 20 (ex_sol 0)) = nat BUFFER_SIZE \<and>
      wld ex_sys = init_world (replicate 20 (ex_sol 0))"
    by (simp add: ex_sys_def ex_world_def BUFFER_SIZE_def)
  then have "\<exists>slots. length slots = nat BUFFER_SIZE \<and> wld ex_sys = init_world slots" by blast
  then show "initial ex_sys"
    by (simp add: initial_def)
      (simp add: ex_sys_def ex_gen_def ex_supervisor_def serving_start_def ex_globals_def)
qed

text \<open>The first producer of the example publishes its first candidate.\<close>

lemma ex_candidate:
  "candidate ex_graph (\<lambda>i. 0) (replicate 100 0) (\<lambda>k. \<lparr>u = 0, v = 0\<rparr>) =
     Inr (replicate 100 0, ex_sol3, True)"
  by code_simp


lemma ex_candidate_discarded:
  "candidate ex_loops (\<lambda>i. 0) (replicate 100 0) (\<lambda>k. \<lparr>u = 0, v = 0\<rparr>) =
     Inr (replicate 100 0, ex_sol 8, False)"
  by code_simp

lemma ex_published_any:
  fixes e :: gen_env
  assumes c: "candidate ex_graph (rnd e) (replicate 100 0) (stale e) = Inr (cols, sol, True)"
    and e: "wait_errno e = None"
  shows "\<exists>w1 q. reach (ex_sys\<lparr>wld := w1, gens := [q, ex_gen]\<rparr>) \<and> gpc q = G82 \<and>
        buffer (shm w1) = (replicate 20 (ex_sol 0))[0 := sol] \<and>
        write_index (shm w1) = 1 \<and> read_index (shm w1) = 0 \<and> terminate (shm w1) = 0 \<and>
        sem w1 SEM_FREE = 19 \<and> sem w1 SEM_USED = 1 \<and> sem w1 SEM_MUTEX = 1"
proof -
  let ?q = "\<lparr>gpc = G112 sol, colors = cols, gr = ex_graph\<rparr>"
  let ?q' = "\<lparr>gpc = G82, colors = cols, gr = ex_graph\<rparr>"
  have h: "0 < sem ex_world SEM_FREE" "0 < sem ex_world SEM_MUTEX"
    "terminate (shm ex_world) = 0" "0 \<le> write_index (shm ex_world)"
    "write_index (shm ex_world) < BUFFER_SIZE"
    by (simp_all add: ex_world_def init_world_def BUFFER_SIZE_def)
  from publish_alone [OF e h, where p = ?q and sol = sol]
  obtain w1 where w1:
    "gen_run (replicate 8 (\<lambda>x. x, e)) ex_world (?q\<lparr>gpc := G112 sol\<rparr>) =
       (publish_calls sol (write_index (shm ex_world)), w1, ?q\<lparr>gpc := G82\<rparr>)"
    "buffer (shm w1) = (buffer (shm ex_world))[nat (write_index (shm ex_world)) := sol]"
    "write_index (shm w1) = (write_index (shm ex_world) + 1) mod BUFFER_SIZE"
    "read_index (shm w1) = read_index (shm ex_world)" "terminate (shm w1) = 0"
    "sem w1 SEM_FREE = sem ex_world SEM_FREE - 1" "sem w1 SEM_USED = sem ex_world SEM_USED + 1"
    "sem w1 SEM_MUTEX = sem ex_world SEM_MUTEX"
    by blast
  have first: "gen_step e ex_world ex_gen = Some ([LoadTerminate 0], ex_world, ?q)"
    using c h(3) by (simp add: gen_step_def ex_gen_def)
  have "map (Pair (\<lambda>x::world. x)) (replicate 9 e) = (\<lambda>x. x, e) # replicate 8 (\<lambda>x. x, e)"
    by (simp add: numeral_eq_Suc)
  then have run: "gen_run (map (Pair (\<lambda>x. x)) (replicate 9 e)) (wld ex_sys) (gens ex_sys ! 0) =
      (LoadTerminate 0 # publish_calls sol (write_index (shm ex_world)), w1, ?q')"
    using first w1(1) by (simp add: ex_sys_def)
  have "reach (ex_sys\<lparr>wld := w1, gens := (gens ex_sys)[0 := ?q']\<rparr>)"
    by (rule reach_gen_run [OF reach_ex_sys _ run]) (simp add: ex_sys_def)
  then have "reach (ex_sys\<lparr>wld := w1, gens := [?q', ex_gen]\<rparr>)"
    by (simp add: ex_sys_def)
  with w1 show ?thesis
    by (intro exI [of _ w1] exI [of _ ?q'])
      (simp add: ex_world_def init_world_def BUFFER_SIZE_def)
qed

text \<open>
  C2. In every state the system can reach in which the supervisor has
  not entered \<^verbatim>\<open>cleanup()\<close>, the units of \<^verbatim>\<open>sem_free\<close> and \<^verbatim>\<open>sem_used\<close> and the
  slots held by processes between a wait and its matching post add up to 20; so at every
  quiescent point of the serving phase the two semaphores add up to 20. The start is
  \<^verbatim>\<open>sem_free\<close> at 20 and \<^verbatim>\<open>sem_used\<close> at 0.
\<close>

theorem capacity_conserved_while_serving:
  assumes "reach s" and "serving (spc (supv s))"
  shows "sem (init_world slots) SEM_FREE = 20 \<and> sem (init_world slots) SEM_USED = 0 \<and>
         sem (wld s) SEM_FREE + sem (wld s) SEM_USED + tally holds_slot (gens s) +
           sup_holds (spc (supv s)) = 20 \<and>
         (quiescent s \<longrightarrow> sem (wld s) SEM_FREE + sem (wld s) SEM_USED = 20)"
  using invD(13) [OF reach_inv [OF assms(1)] assms(2)]
  by (simp add: quiescent_def init_world_def BUFFER_SIZE_def)

theorem capacity_conserved_while_serving_witness:
  "\<exists>s. reach s \<and> serving (spc (supv s)) \<and> quiescent s \<and>
       sem (wld s) SEM_USED = 1 \<and> sem (wld s) SEM_FREE + sem (wld s) SEM_USED = 20"
proof -
  have "wait_errno ex_env0 = None"
    "candidate ex_graph (rnd ex_env0) (replicate 100 0) (stale ex_env0) =
       Inr (replicate 100 0, ex_sol3, True)"
    using ex_candidate by (simp_all add: ex_env0_def)
  from ex_published_any [OF this(2,1)]
  obtain w1 q where w1: "reach (ex_sys\<lparr>wld := w1, gens := [q, ex_gen]\<rparr>)" "gpc q = G82"
    "sem w1 SEM_USED = 1"
    by blast
  let ?s = "ex_sys\<lparr>wld := w1, gens := [q, ex_gen]\<rparr>"
  have sv: "serving (spc (supv ?s))" by (simp add: ex_sys_def ex_supervisor_def)
  have q: "quiescent ?s"
    using w1(2) by (simp add: quiescent_def ex_sys_def ex_supervisor_def ex_gen_def tally_def)
  from capacity_conserved_while_serving [OF w1(1) sv] q
  have "sem (wld ?s) SEM_FREE + sem (wld ?s) SEM_USED = 20" by blast
  with w1 sv q show ?thesis by (intro exI [of _ ?s]) simp
qed

text \<open>
  The conservation does not extend to the shutdown: after the supervisor's twenty posts of
  \<^verbatim>\<open>sem_free\<close>, with no process between a wait and its post, the semaphores add up to
  40.
\<close>

theorem capacity_not_conserved_in_shutdown:
  "\<exists>s. reach s \<and> quiescent s \<and> sem (wld s) SEM_FREE + sem (wld s) SEM_USED = 40"
proof -
  have a: "acquired ex_globals" by (simp add: acquired_def ex_globals_def)
  note c = cleanup_acquired [OF a]
  let ?cs = "StoreTerminate Mapped 1 # replicate 20 (SemPost SEM_FREE)"
  let ?ds = "[SemClose SEM_FREE, SemUnlink SEM_FREE, SemClose SEM_USED, SemUnlink SEM_USED,
      SemClose SEM_MUTEX, SemUnlink SEM_MUTEX, Munmap, Close, ShmUnlink]"
  let ?p1 = "ex_supervisor\<lparr>spc := S32 all_held (cleanup ex_globals)\<rparr>"
  obtain w2 where e: "exec_seq ?cs (all_held, ex_world) = Some (all_held, w2)"
    and w2: "\<forall>y. sem w2 y = (if y = SEM_FREE then sem ex_world SEM_FREE + 20 else sem ex_world y)"
    using exec_seq_wake [of all_held 20 ex_world] by (auto simp: all_held_def)
  have sems: "sem w2 SEM_FREE = 40" "sem w2 SEM_USED = 0"
    using w2 by (simp_all add: ex_world_def init_world_def BUFFER_SIZE_def)
  have s0: "sup_step a_signal ex_world ex_supervisor = Some ([], ex_world, ?p1)"
    by (simp add: sup_step_def a_signal_def ex_supervisor_def)
  have s1: "sup_run (replicate (length ?cs) (\<lambda>x. x, no_signal)) ex_world ?p1 =
      (?cs, w2, ?p1\<lparr>spc := S32 all_held ?ds\<rparr>)"
    using run_cleanup_prefix [of ?p1 all_held ?cs ?ds ex_world all_held w2] e
    by (simp add: c del: exec_seq.simps)
  have "sup_run (map (Pair (\<lambda>x. x)) (a_signal # replicate 21 no_signal)) (wld ex_sys) (supv ex_sys) =
      (?cs, w2, ?p1\<lparr>spc := S32 all_held ?ds\<rparr>)"
    using s0 s1 by (simp add: ex_sys_def)
  from reach_sup_run [OF reach_ex_sys this]
  have r: "reach (ex_sys\<lparr>wld := w2, supv := ?p1\<lparr>spc := S32 all_held ?ds\<rparr>\<rparr>)" .
  have q: "quiescent (ex_sys\<lparr>wld := w2, supv := ?p1\<lparr>spc := S32 all_held ?ds\<rparr>\<rparr>)"
    by (simp add: quiescent_def ex_sys_def ex_gen_def tally_def)
  from r q sems show ?thesis
    by (intro exI [of _ "ex_sys\<lparr>wld := w2, supv := ?p1\<lparr>spc := S32 all_held ?ds\<rparr>\<rparr>"]) simp
qed


lemma sup_step_loaded:
  assumes "sup_step env w p = Some (cs, w', p')" and "sup_ok (spc p)"
  shows "loaded cs = [] \<or>
         (spc p = S176 \<and> loaded cs = [buffer (shm w) ! nat (read_index (shm w))])"
proof (cases "spc p")
  case (S32 h rest)
  show ?thesis
  proof (cases rest)
    case Nil
    with assms S32 show ?thesis by (auto simp: sup_step_def split: if_splits)
  next
    case (Cons c rest')
    with assms(2) S32 have "cleanup_call c" by simp
    then have "loaded [c] = []" by (cases c) simp_all
    with assms(1) S32 Cons show ?thesis
      by (auto simp: sup_step_def split: if_splits option.splits prod.splits)
  qed
qed (use assms in \<open>auto simp: sup_step_def Let_def loaded_Printf
      split: if_splits option.splits prod.splits\<close>)

text \<open>
  C6. Every record the supervisor loads from the buffer, in any state the system can
  reach, has an \<^verbatim>\<open>edge_count\<close> from 0 to \<^verbatim>\<open>MAX_REMOVED_EDGES\<close>. On the producer's
  side, a round at the loop head with \<^verbatim>\<open>terminate\<close> clear builds a record with such a
  count; it is valid exactly when at most \<^verbatim>\<open>MAX_REMOVED_EDGES\<close> edges conflict, and
  then the producer goes on to line 112 with it; otherwise the producer is back at the
  loop head, the shared objects are untouched and its only call was the read of
  \<^verbatim>\<open>terminate\<close>.
\<close>

theorem records_read_are_bounded:
  "(reach s \<and> sup_step senv (wld s) (supv s) = Some (cs, w', p') \<longrightarrow>
      list_all (\<lambda>sol. 0 \<le> edge_count sol \<and> edge_count sol \<le> MAX_REMOVED_EDGES) (loaded cs)) \<and>
   (gpc q = G82 \<and> terminate (shm w) = 0 \<and>
    candidate (gr q) (rnd env) (colors q) (stale env) = Inr (cols, sol, ok) \<longrightarrow>
      0 \<le> edge_count sol \<and> edge_count sol \<le> MAX_REMOVED_EDGES \<and>
      (ok \<longleftrightarrow>
         int (length (conflicts cols (take (nat (num_edges (gr q))) (graph_edges (gr q)))))
           \<le> MAX_REMOVED_EDGES) \<and>
      gen_step env w q =
        Some ([LoadTerminate 0], w, q\<lparr>gpc := (if ok then G112 sol else G82), colors := cols\<rparr>))"
proof -
  have 1: "list_all (\<lambda>sol. 0 \<le> edge_count sol \<and> edge_count sol \<le> MAX_REMOVED_EDGES) (loaded cs)"
    if r: "reach s" and st: "sup_step senv (wld s) (supv s) = Some (cs, w', p')"
  proof -
    note D = invD [OF reach_inv [OF r]]
    from sup_step_loaded [OF st D(10)] show ?thesis
    proof
      assume "loaded cs = []"
      then show ?thesis by simp
    next
      assume a: "spc (supv s) = S176 \<and>
        loaded cs = [buffer (shm (wld s)) ! nat (read_index (shm (wld s)))]"
      then have "0 < pending s" "in_loop (spc (supv s))" by (simp_all add: pending_def)
      from D(8) [OF this(2,1)] D(1,2) a show ?thesis
        by (simp add: valid_solution_def BUFFER_SIZE_def)
    qed
  qed
  have 2: "0 \<le> edge_count sol \<and> edge_count sol \<le> MAX_REMOVED_EDGES \<and>
      (ok \<longleftrightarrow>
         int (length (conflicts cols (take (nat (num_edges (gr q))) (graph_edges (gr q)))))
           \<le> MAX_REMOVED_EDGES) \<and>
      gen_step env w q =
        Some ([LoadTerminate 0], w, q\<lparr>gpc := (if ok then G112 sol else G82), colors := cols\<rparr>)"
    if "gpc q = G82" "terminate (shm w) = 0"
      "candidate (gr q) (rnd env) (colors q) (stale env) = Inr (cols, sol, ok)"
    using candidate_valid [OF that(3)] that
    by (simp add: gen_step_def valid_solution_def)
  from 1 2 show ?thesis by blast
qed


text \<open>The supervisor of the example reads what the producer published.\<close>

lemma ex_read:
  assumes c: "candidate ex_graph (rnd e) (replicate 100 0) (stale e) = Inr (cols, sol, True)"
    and e: "wait_errno (e :: gen_env) = None"
  shows "\<exists>s. reach s \<and> supv s = ex_supervisor\<lparr>spc := S176\<rparr> \<and>
           read_index (shm (wld s)) = 0 \<and> buffer (shm (wld s)) ! 0 = sol"
    and "\<exists>s. reach s \<and> supv s = ex_supervisor\<lparr>spc := S185 sol, solutions_read := 1\<rparr>"
proof -
  from ex_published_any [OF c e]
  obtain w1 q where w1: "reach (ex_sys\<lparr>wld := w1, gens := [q, ex_gen]\<rparr>)"
    "buffer (shm w1) = (replicate 20 (ex_sol 0))[0 := sol]"
    "read_index (shm w1) = 0" "terminate (shm w1) = 0" "sem w1 SEM_USED = 1"
    by blast
  let ?s1 = "ex_sys\<lparr>wld := w1, gens := [q, ex_gen]\<rparr>"
  let ?w2 = "w1\<lparr>sem := (sem w1)(SEM_USED := sem w1 SEM_USED - 1)\<rparr>"
  have b: "buffer (shm w1) ! 0 = sol" using w1(2) by simp
  have 2: "sup_run (map (Pair (\<lambda>x. x)) [no_signal, no_signal]) (wld ?s1) (supv ?s1) =
      ([LoadTerminate 0, SemWait SEM_USED], ?w2, ex_supervisor\<lparr>spc := S176\<rparr>)"
    using w1(4,5)
    by (simp add: sup_step_def no_signal_def sem_wait_def ex_sys_def ex_supervisor_def)
  from reach_sup_run [OF w1(1) 2] w1(3) b
  show "\<exists>s. reach s \<and> supv s = ex_supervisor\<lparr>spc := S176\<rparr> \<and>
           read_index (shm (wld s)) = 0 \<and> buffer (shm (wld s)) ! 0 = sol"
    by (intro exI [of _ "?s1\<lparr>wld := ?w2, supv := ex_supervisor\<lparr>spc := S176\<rparr>\<rparr>"]) simp
  have 4: "\<exists>w4. sup_run (map (Pair (\<lambda>x. x)) [no_signal, no_signal, no_signal, no_signal])
        (wld ?s1) (supv ?s1) =
      ([LoadTerminate 0, SemWait SEM_USED, LoadBuffer 0 sol, StoreReadIndex 1, SemPost SEM_FREE],
       w4, ex_supervisor\<lparr>spc := S185 sol, solutions_read := 1\<rparr>)"
    using w1(3,4,5) b
    by (simp add: sup_step_def no_signal_def sem_wait_def ex_sys_def ex_supervisor_def
        BUFFER_SIZE_def c_rem_20 Let_def)
  then obtain w4 where "sup_run (map (Pair (\<lambda>x. x)) [no_signal, no_signal, no_signal, no_signal])
        (wld ?s1) (supv ?s1) =
      ([LoadTerminate 0, SemWait SEM_USED, LoadBuffer 0 sol, StoreReadIndex 1, SemPost SEM_FREE],
       w4, ex_supervisor\<lparr>spc := S185 sol, solutions_read := 1\<rparr>)" by blast
  from reach_sup_run [OF w1(1) this]
  show "\<exists>s. reach s \<and> supv s = ex_supervisor\<lparr>spc := S185 sol, solutions_read := 1\<rparr>"
    by (intro exI [of _ "?s1\<lparr>wld := w4,
        supv := ex_supervisor\<lparr>spc := S185 sol, solutions_read := 1\<rparr>\<rparr>"]) simp
qed

theorem records_read_are_bounded_witness:
  "(\<exists>s cs w' p'. reach s \<and> sup_step no_signal (wld s) (supv s) = Some (cs, w', p') \<and>
      loaded cs = [ex_sol3] \<and>
      list_all (\<lambda>sol. 0 \<le> edge_count sol \<and> edge_count sol \<le> MAX_REMOVED_EDGES) (loaded cs)) \<and>
   gen_step ex_env0 ex_world (ex_gen\<lparr>gr := ex_loops\<rparr>) =
     Some ([LoadTerminate 0], ex_world, ex_gen\<lparr>gr := ex_loops\<rparr>) \<and>
   int (length (conflicts (replicate 100 0) (graph_edges ex_loops))) = 9"
proof -
  have "candidate ex_graph (rnd ex_env0) (replicate 100 0) (stale ex_env0) =
       Inr (replicate 100 0, ex_sol3, True)" "wait_errno ex_env0 = None"
    using ex_candidate by (simp_all add: ex_env0_def)
  from ex_read(1) [OF this]
  obtain s where s: "reach s" "supv s = ex_supervisor\<lparr>spc := S176\<rparr>"
    "read_index (shm (wld s)) = 0" "buffer (shm (wld s)) ! 0 = ex_sol3"
    by blast
  let ?w' = "(wld s)\<lparr>shm := (shm (wld s))\<lparr>read_index := c_rem (0 + 1) BUFFER_SIZE\<rparr>\<rparr>"
  have st: "sup_step no_signal (wld s) (supv s) =
      Some ([LoadBuffer 0 ex_sol3, StoreReadIndex (c_rem (0 + 1) BUFFER_SIZE)], ?w',
            ex_supervisor\<lparr>spc := S181 ex_sol3\<rparr>)"
    using s(2,3,4) by (simp add: sup_step_def no_signal_def BUFFER_SIZE_def)
  have t: "terminate (shm ex_world) = 0" by (simp add: ex_world_def init_world_def)
  have g: "gpc (ex_gen\<lparr>gr := ex_loops\<rparr>) = G82"
    "candidate (gr (ex_gen\<lparr>gr := ex_loops\<rparr>)) (rnd ex_env0)
       (colors (ex_gen\<lparr>gr := ex_loops\<rparr>)) (stale ex_env0) =
     Inr (replicate 100 0, ex_sol 8, False)"
    using ex_candidate_discarded by (simp_all add: ex_gen_def ex_env0_def)
  note R = records_read_are_bounded [where s = s and senv = no_signal
      and q = "ex_gen\<lparr>gr := ex_loops\<rparr>" and w = ex_world and env = ex_env0
      and cols = "replicate 100 0" and sol = "ex_sol 8" and ok = False]
  from R s(1) st
  have 1: "list_all (\<lambda>sol. 0 \<le> edge_count sol \<and> edge_count sol \<le> MAX_REMOVED_EDGES)
      (loaded [LoadBuffer 0 ex_sol3, StoreReadIndex (c_rem (0 + 1) BUFFER_SIZE)])"
    by blast
  from R t g
  have 2: "gen_step ex_env0 ex_world (ex_gen\<lparr>gr := ex_loops\<rparr>) =
      Some ([LoadTerminate 0], ex_world,
            ex_gen\<lparr>gr := ex_loops, gpc := (if False then G112 (ex_sol 8) else G82),
                   colors := replicate 100 0\<rparr>)"
    by blast
  have A: "\<exists>s cs w' p'. reach s \<and> sup_step no_signal (wld s) (supv s) = Some (cs, w', p') \<and>
      loaded cs = [ex_sol3] \<and>
      list_all (\<lambda>sol. 0 \<le> edge_count sol \<and> edge_count sol \<le> MAX_REMOVED_EDGES) (loaded cs)"
    using s(1) st 1
    by (intro exI [of _ s] exI [of _ "[LoadBuffer 0 ex_sol3, StoreReadIndex (c_rem (0 + 1) BUFFER_SIZE)]"]
        exI [of _ ?w'] exI [of _ "ex_supervisor\<lparr>spc := S181 ex_sol3\<rparr>"]) simp
  have B: "gen_step ex_env0 ex_world (ex_gen\<lparr>gr := ex_loops\<rparr>) =
     Some ([LoadTerminate 0], ex_world, ex_gen\<lparr>gr := ex_loops\<rparr>)"
    using 2 by (simp add: ex_gen_def)
  have C: "int (length (conflicts (replicate 100 0) (graph_edges ex_loops))) = 9"
    by (simp add: conflicts_def ex_loops_def)
  from A B C show ?thesis by blast
qed


subsection \<open>Leaving the read loop\<close>







end
